theory Spec2Isabelle
  imports Complex_Main "HOL-Library.AList" "HOL-Library.Multiset"
begin

section \<open>Values of the optimizer (src/optimizer.js)\<close>

text \<open>
  A JavaScript number is modelled by a real; the three non-finite results a division can
  give are kept apart, since \<open>compileResults\<close> and \<open>calculateImprovement\<close> divide
  without a guard. Rounding of IEEE doubles is not modelled.
\<close>

datatype jsnum = Fin real | PosInf | NegInf | NaN

definition js_div :: "real \<Rightarrow> real \<Rightarrow> jsnum" where
  "js_div a b =
     (if b = 0 then (if a = 0 then NaN else if 0 < a then PosInf else NegInf)
      else Fin (a / b))"

fun js_mul :: "jsnum \<Rightarrow> real \<Rightarrow> jsnum" where
  "js_mul (Fin x) c = Fin (x * c)"
| "js_mul NaN c = NaN"
| "js_mul PosInf c = (if c = 0 then NaN else if 0 < c then PosInf else NegInf)"
| "js_mul NegInf c = (if c = 0 then NaN else if 0 < c then NegInf else PosInf)"

fun js_mulj :: "jsnum \<Rightarrow> jsnum \<Rightarrow> jsnum" where
  "js_mulj a (Fin c) = js_mul a c"
| "js_mulj (Fin x) b = js_mul b x"
| "js_mulj NaN b = NaN"
| "js_mulj a NaN = NaN"
| "js_mulj PosInf PosInf = PosInf"
| "js_mulj PosInf NegInf = NegInf"
| "js_mulj NegInf PosInf = NegInf"
| "js_mulj NegInf NegInf = PosInf"

text \<open>\<open>a / b\<close> for a finite \<open>a\<close>.\<close>

fun js_divj :: "real \<Rightarrow> jsnum \<Rightarrow> jsnum" where
  "js_divj a (Fin b) = js_div a b"
| "js_divj a NaN = NaN"
| "js_divj a PosInf = Fin 0"
| "js_divj a NegInf = Fin 0"

text \<open>\<open>Math.min(a, b)\<close> for a finite \<open>a\<close>.\<close>

fun js_min :: "real \<Rightarrow> jsnum \<Rightarrow> jsnum" where
  "js_min a (Fin b) = Fin (min a b)"
| "js_min a NaN = NaN"
| "js_min a PosInf = Fin a"
| "js_min a NegInf = NegInf"

text \<open>\<open>Math.round\<close>: the nearest integer, a half rounded up.\<close>

definition js_round :: "real \<Rightarrow> real" where
  "js_round x = of_int \<lfloor>x + 1 / 2\<rfloor>"

fun js_roundj :: "jsnum \<Rightarrow> jsnum" where
  "js_roundj (Fin x) = Fin (js_round x)"
| "js_roundj a = a"

text \<open>
  A parameter value is a number or a boolean (\<open>param.current\<close> may also be a string);
  \<open>Undefined\<close> is what reading a missing key gives and \<open>NotANumber\<close> is the number NaN.
  A parameter set is a JavaScript object: an association list in insertion order, where
  \<open>obj[k] = v\<close> is \<open>AList.update k v obj\<close> (an existing key keeps its place, a new key
  goes last), \<open>obj[k]\<close> is \<open>lookup obj k\<close> and \<open>{...obj}\<close> is the list itself.
\<close>

datatype pval = Num real | Bool bool | Str string | Undefined | NotANumber

type_synonym pset = "(string \<times> pval) list"

definition lookup :: "pset \<Rightarrow> string \<Rightarrow> pval" where
  "lookup obj k = (case map_of obj k of None \<Rightarrow> Undefined | Some v \<Rightarrow> v)"

text \<open>
  The number an operand of \<open>+\<close> with a number stands for, \<open>None\<close> for NaN. (With a
  string operand \<open>+\<close> concatenates; no set built by a run holds a string, and the case is
  treated as NaN.)
\<close>

fun to_number :: "pval \<Rightarrow> real option" where
  "to_number (Num x) = Some x"
| "to_number (Bool b) = Some (if b then 1 else 0)"
| "to_number v = None"

datatype ptype = PInteger | PFloat | PBoolean | POther

text \<open>
  A parameter definition. The fields \<open>type\<close>, \<open>min\<close>, \<open>max\<close>, \<open>step\<close> and \<open>current\<close> of
  the source are \<open>ptype\<close>, \<open>pmin\<close>, \<open>pmax\<close>, \<open>pstep\<close> and \<open>pcurrent\<close> here.
\<close>

record param =
  name :: string
  ptype :: ptype
  pmin :: real
  pmax :: real
  pstep :: real
  pcurrent :: pval

text \<open>
  An evaluation result. \<open>metrics\<close> and \<open>timestamp\<close> are left out: the optimizer
  stores them and never reads them.
\<close>

record result =
  iteration :: nat
  parameters :: pset
  score :: real

datatype error = AlreadyInProgress | CallbackError string | TypeError

text \<open>The object handed to the progress callback by \<open>updateProgress\<close>.\<close>

record progress =
  current_p :: nat
  total_p :: jsnum
  percentage :: jsnum
  bestScore_p :: real
  resultsCount :: nat

text \<open>
  The fields of \<open>StrategyOptimizer\<close>. \<open>totalIterations\<close> is
  \<open>currentOptimization.totalIterations\<close>. A progress callback returns or throws. Two
  counters stand for the world outside the object: \<open>draws\<close> is the number of
  \<open>Math.random()\<close> calls made so far (the position in the stream of random numbers), and
  \<open>clock\<close> the number of times the run has been suspended at an \<open>await\<close>.
\<close>

record engine =
  isOptimizing :: bool
  results :: "result list"
  bestResult :: "result option"
  progressCallback :: "(progress \<Rightarrow> error + unit) option"
  totalIterations :: jsnum
  draws :: nat
  clock :: nat

section \<open>Result tracker\<close>

definition updateBestResult :: "result \<Rightarrow> engine \<Rightarrow> engine" where
  "updateBestResult r st =
     (case bestResult st of
        None \<Rightarrow> st\<lparr>bestResult := Some r\<rparr>
      | Some b \<Rightarrow> if score b < score r then st\<lparr>bestResult := Some r\<rparr> else st)"

text \<open>\<open>this.results.push(result)\<close>.\<close>

definition push_result :: "result \<Rightarrow> engine \<Rightarrow> engine" where
  "push_result r st = st\<lparr>results := results st @ [r]\<rparr>"

text \<open>
  \<open>getTopResults\<close>: \<open>Array.prototype.sort\<close> sorts \<open>this.results\<close> itself (stably, by
  descending score) and returns it; \<open>slice\<close> then copies the first \<open>count\<close> (here \<open>n\<close>) elements. The
  function returns the slice and the engine with its reordered log.
\<close>

definition getTopResults :: "nat \<Rightarrow> engine \<Rightarrow> result list \<times> engine" where
  "getTopResults n st =
     (let sorted = sort_key (\<lambda>r. - score r) (results st)
      in (take n sorted, st\<lparr>results := sorted\<rparr>))"

definition calculateImprovement :: "engine \<Rightarrow> error + jsnum" where
  "calculateImprovement st =
     (if length (results st) < 2 then Inr (Fin 0)
      else case bestResult st of
             None \<Rightarrow> Inl TypeError
           | Some b \<Rightarrow>
               (let firstScore = score (results st ! 0);
                    bestScore = score b
                in Inr (js_mul (js_div (bestScore - firstScore) firstScore) 100)))"

record summary =
  bestScore :: real
  averageScore :: jsnum
  improvement :: jsnum
  parameters_s :: pset

text \<open>
  The object \<open>compileResults\<close> returns, without \<open>duration\<close> (a wall-clock difference).
  Its fields \<open>bestResult\<close> and \<open>summary\<close> are \<open>bestResult_c\<close> and \<open>summary_c\<close>.
\<close>

record compiled =
  success :: bool
  totalTests :: nat
  bestResult_c :: "result option"
  topResults :: "result list"
  summary_c :: summary

text \<open>
  \<open>compileResults\<close>. The properties of the object literal are evaluated in source order:
  \<open>totalTests\<close> and \<open>bestResult\<close> first, then \<open>topResults\<close> (which sorts the log), and
  only then the summary, so \<open>calculateImprovement\<close> reads the sorted log.
  \<open>this.bestResult?.score || 0\<close> is 0 without a best result.
\<close>

definition compileResults :: "engine \<Rightarrow> (error \<times> engine) + (compiled \<times> engine)" where
  "compileResults st =
     (let n = length (results st);
          best = bestResult st;
          (top, st1) = getTopResults 10 st
      in case calculateImprovement st1 of
           Inl e \<Rightarrow> Inl (e, st1)
         | Inr imp \<Rightarrow>
             Inr (\<lparr>success = True, totalTests = n, bestResult_c = best, topResults = top,
                   summary_c =
                     \<lparr>bestScore = (case bestResult st1 of None \<Rightarrow> 0 | Some b \<Rightarrow> score b),
                      averageScore =
                        js_div (foldl (\<lambda>sum r. sum + score r) 0 (results st1))
                          (real (length (results st1))),
                      improvement = imp,
                      parameters_s =
                        (case bestResult st1 of None \<Rightarrow> [] | Some b \<Rightarrow> parameters b)\<rparr>\<rparr>,
                  st1))"


section \<open>Candidate generator\<close>

text \<open>\<open>densityMap[density] || 5\<close>.\<close>

definition stepsPerParam :: "string \<Rightarrow> nat" where
  "stepsPerParam density =
     (if density = ''basic'' then 3
      else if density = ''coarse'' then 5
      else if density = ''standard'' then 7
      else if density = ''fine'' then 10
      else 5)"

text \<open>
  \<open>generateParameterSteps\<close>. It is only called with \<open>stepsPerParam density\<close>, so
  \<open>stepCount - 1\<close> is never 0. \<open>steps.includes(value)\<close> is membership in the list built so
  far.
\<close>

definition generateParameterSteps :: "param \<Rightarrow> nat \<Rightarrow> pval list" where
  "generateParameterSteps param stepCount =
     (if ptype param = PBoolean then [Bool True, Bool False]
      else if ptype param = PInteger \<or> ptype param = PFloat then
        (let stepSize = (pmax param - pmin param) / (real stepCount - 1)
         in foldl
              (\<lambda>steps i.
                 let v = pmin param + stepSize * real i;
                     v = (if ptype param = PInteger then js_round v else v)
                 in if Num v \<in> set steps then steps else steps @ [Num v])
              [] [0..<stepCount])
      else [])"

text \<open>
  The recursive closure \<open>generateCombinations\<close> of \<open>generateParameterSets\<close>, and the
  \<open>for\<close> loop of its body (\<open>generateCombinations_for\<close>, over the values not yet visited).
  The closure writes to two shared objects, which are passed through: \<open>current\<close> (one
  object, updated in place at every level) and the array \<open>sets\<close>. \<open>params\<close> is the rest of
  the parameter list from \<open>index\<close> on.
\<close>

fun generateCombinations :: "nat \<Rightarrow> param list \<Rightarrow> pset \<Rightarrow> pset list \<Rightarrow> pset \<times> pset list"
  and generateCombinations_for ::
    "nat \<Rightarrow> param \<Rightarrow> param list \<Rightarrow> pval list \<Rightarrow> pset \<Rightarrow> pset list \<Rightarrow> pset \<times> pset list"
where
  "generateCombinations k [] current sets = (current, sets @ [current])"
| "generateCombinations k (param # params) current sets =
     generateCombinations_for k param params (generateParameterSteps param k) current sets"
| "generateCombinations_for k param params [] current sets = (current, sets)"
| "generateCombinations_for k param params (v # vs) current sets =
     (case generateCombinations k params (AList.update (name param) v current) sets of
        (current1, sets1) \<Rightarrow>
          if 10000 \<le> length sets1 then (current1, sets1)
          else generateCombinations_for k param params vs current1 sets1)"


text \<open>
  \<open>shuffleArray\<close>: the loop \<open>for (i = length - 1; i > 0; i--)\<close> swaps the elements at
  \<open>i\<close> and at \<open>j = floor(random * (i + 1))\<close>.
\<close>

fun shuffle_loop :: "(nat \<Rightarrow> real) \<Rightarrow> nat \<Rightarrow> 'a list \<Rightarrow> nat \<Rightarrow> 'a list \<times> nat" where
  "shuffle_loop rnd 0 shuffled d = (shuffled, d)"
| "shuffle_loop rnd (Suc i) shuffled d =
     (let j = nat \<lfloor>rnd d * (real (Suc i) + 1)\<rfloor>
      in shuffle_loop rnd i (shuffled[Suc i := shuffled ! j, j := shuffled ! Suc i]) (Suc d))"

definition shuffleArray :: "(nat \<Rightarrow> real) \<Rightarrow> 'a list \<Rightarrow> nat \<Rightarrow> 'a list \<times> nat" where
  "shuffleArray rnd array d = shuffle_loop rnd (length array - 1) array d"

definition generateParameterSets ::
    "(nat \<Rightarrow> real) \<Rightarrow> param list \<Rightarrow> string \<Rightarrow> nat \<Rightarrow> pset list \<times> nat" where
  "generateParameterSets rnd parameters_d density d =
     shuffleArray rnd
       (snd (generateCombinations (stepsPerParam density) parameters_d [] [])) d"

text \<open>
  The size of the Cartesian product that \<open>generateCombinations\<close> enumerates: the product
  of the numbers of steps of the parameters. It is 0 as soon as one parameter has no
  steps (a parameter that is neither boolean nor numeric).
\<close>

definition combinations :: "nat \<Rightarrow> param list \<Rightarrow> nat" where
  "combinations k params =
     prod_list (map (\<lambda>param. length (generateParameterSteps param k)) params)"


section \<open>The world outside the optimizer\<close>

text \<open>
  Three oracles stand for what the optimizer does not decide. \<open>rand d\<close> is the value of
  the \<open>d\<close>-th call of \<open>Math.random()\<close>. \<open>evaluator t ps\<close> is the score the fitness
  evaluation of \<open>ps\<close> returns when it is started at suspension \<open>t\<close>: the simulated scorer
  of the source (\<open>generateSimulatedScore\<close>) draws on \<open>Math.sin\<close> and \<open>Math.random\<close>, and
  the specification treats the evaluator as an external collaborator. \<open>stop_called t\<close>
  says that \<open>stop()\<close> is called while the run is suspended for the \<open>t\<close>-th time; a
  single-threaded host can run it at no other moment.
\<close>

record env =
  rand :: "nat \<Rightarrow> real"
  evaluator :: "nat \<Rightarrow> pset \<Rightarrow> real"
  stop_called :: "nat \<Rightarrow> bool"

definition stop :: "engine \<Rightarrow> engine" where
  "stop st = st\<lparr>isOptimizing := False\<rparr>"

text \<open>
  One suspension of the run at an \<open>await\<close> (\<open>delay\<close>, and the \<open>delay\<close> inside
  \<open>testParameterSet\<close>): the host may call \<open>stop()\<close> before the run resumes.
\<close>

definition delay :: "env \<Rightarrow> engine \<Rightarrow> engine" where
  "delay ev st =
     (if stop_called ev (clock st) then stop (st\<lparr>clock := Suc (clock st)\<rparr>)
      else st\<lparr>clock := Suc (clock st)\<rparr>)"

definition testParameterSet :: "env \<Rightarrow> pset \<Rightarrow> nat \<Rightarrow> engine \<Rightarrow> result \<times> engine" where
  "testParameterSet ev ps i st =
     (\<lparr>iteration = i, parameters = ps, score = evaluator ev (clock st) ps\<rparr>, delay ev st)"

definition updateProgress :: "nat \<Rightarrow> jsnum \<Rightarrow> engine \<Rightarrow> error + unit" where
  "updateProgress cur tot st =
     (case progressCallback st of
        None \<Rightarrow> Inr ()
      | Some callback \<Rightarrow>
          callback
            \<lparr>current_p = cur, total_p = tot,
             percentage = js_roundj (js_mulj (js_divj (real cur) tot) (Fin 100)),
             bestScore_p = (case bestResult st of None \<Rightarrow> 0 | Some b \<Rightarrow> score b),
             resultsCount = length (results st)\<rparr>)"

section \<open>Grid phases\<close>

text \<open>
  The \<open>for\<close> loop of \<open>basicOptimization\<close> and of phase 1 of \<open>standardOptimization\<close> and
  \<open>deepOptimization\<close>; the three differ in the total they report (\<open>maxSets\<close> in the
  first, \<open>config.maxIterations\<close> in the others, here \<open>tot\<close>) and in the length of the
  pause. A loop returns the engine, or the error thrown together with the engine as the
  throw left it.
\<close>

function grid_loop ::
    "env \<Rightarrow> pset list \<Rightarrow> nat \<Rightarrow> jsnum \<Rightarrow> nat \<Rightarrow> engine \<Rightarrow> (error \<times> engine) + engine" where
  "grid_loop ev parameterSets maxSets tot i st =
     (if i < maxSets then
        if isOptimizing st then
          (case testParameterSet ev (parameterSets ! i) i st of
             (r, st1) \<Rightarrow>
               (let st2 = updateBestResult r (push_result r st1)
                in case updateProgress (i + 1) tot st2 of
                     Inl e \<Rightarrow> Inl (e, st2)
                   | Inr u \<Rightarrow> grid_loop ev parameterSets maxSets tot (i + 1) (delay ev st2)))
        else Inr st
      else Inr st)"
  by pat_completeness auto
termination
  by (relation "measure (\<lambda>(ev, parameterSets, maxSets, tot, i, st). maxSets - i)") auto

declare grid_loop.simps [simp del]

text \<open>The \<open>for\<close> loop of phase 2 of \<open>standardOptimization\<close>.\<close>

function fine_loop ::
    "env \<Rightarrow> pset list \<Rightarrow> nat \<Rightarrow> jsnum \<Rightarrow> nat \<Rightarrow> engine \<Rightarrow> (error \<times> engine) + engine" where
  "fine_loop ev fineParameterSets maxSets tot i st =
     (if i < maxSets then
        if isOptimizing st then
          (case testParameterSet ev (fineParameterSets ! i) (length (results st)) st of
             (r, st1) \<Rightarrow>
               (let st2 = updateBestResult r (push_result r st1)
                in case updateProgress (length (results st2)) tot st2 of
                     Inl e \<Rightarrow> Inl (e, st2)
                   | Inr u \<Rightarrow> fine_loop ev fineParameterSets maxSets tot (i + 1) (delay ev st2)))
        else Inr st
      else Inr st)"
  by pat_completeness auto
termination
  by (relation "measure (\<lambda>(ev, fineParameterSets, maxSets, tot, i, st). maxSets - i)") auto

declare fine_loop.simps [simp del]

text \<open>
  The value \<open>currentValue + step * i\<close>, clamped to the bounds and rounded for an integer
  parameter: the body shared by \<open>generateParameterVariations\<close> and \<open>generateNeighbors\<close>.
  \<open>param.step || 1\<close> is 1 for a step of 0.
\<close>

definition perturbed :: "param \<Rightarrow> pval \<Rightarrow> real \<Rightarrow> pval" where
  "perturbed param currentValue i =
     (case to_number currentValue of
        None \<Rightarrow> NotANumber
      | Some c \<Rightarrow>
          (let step = (if pstep param = 0 then 1 else pstep param);
               newValue = c + step * i;
               newValue = max (pmin param) (min (pmax param) newValue)
           in Num (if ptype param = PInteger then js_round newValue else newValue)))"

text \<open>\<open>newValue !== currentValue\<close>: NaN differs from every value, itself included.\<close>

definition differs :: "pval \<Rightarrow> pval \<Rightarrow> bool" where
  "differs newValue currentValue = (newValue = NotANumber \<or> newValue \<noteq> currentValue)"

definition generateParameterVariations :: "param \<Rightarrow> pval \<Rightarrow> pval list" where
  "generateParameterVariations param currentValue =
     (if ptype param = PInteger \<or> ptype param = PFloat then
        filter (\<lambda>newValue. differs newValue currentValue)
          (map (perturbed param currentValue) [- 2, - 1, 1, 2])
      else [])"

text \<open>\<open>removeDuplicateSets\<close>: the first occurrence of every set, in order.\<close>

definition removeDuplicateSets :: "pset list \<Rightarrow> pset list" where
  "removeDuplicateSets sets =
     foldl (\<lambda>unique s. if s \<in> set unique then unique else unique @ [s]) [] sets"

definition generateFineParameterSets :: "result list \<Rightarrow> param list \<Rightarrow> pset list" where
  "generateFineParameterSets topResults_f parameters_f =
     removeDuplicateSets
       (concat (map (\<lambda>r.
          concat (map (\<lambda>param.
            map (\<lambda>variation. AList.update (name param) variation (parameters r))
              (generateParameterVariations param (lookup (parameters r) (name param))))
            parameters_f))
          topResults_f))"


section \<open>Genetic phase\<close>

text \<open>An individual; \<open>fitness\<close> is \<open>None\<close> for \<open>null\<close>.\<close>

record individual =
  genes :: pset
  fitness :: "real option"

text \<open>\<open>individual.fitness || 0\<close>.\<close>

definition fitness_or_0 :: "individual \<Rightarrow> real" where
  "fitness_or_0 ind = (case fitness ind of None \<Rightarrow> 0 | Some f \<Rightarrow> f)"

text \<open>
  \<open>generateRandomValue\<close>, with the position in the random stream. The three typed cases
  draw one number, the last none.
\<close>

definition generateRandomValue :: "(nat \<Rightarrow> real) \<Rightarrow> param \<Rightarrow> nat \<Rightarrow> pval \<times> nat" where
  "generateRandomValue rnd param d =
     (if ptype param = PBoolean then (Bool (rnd d < 0.5), Suc d)
      else if ptype param = PInteger then
        (Num (of_int \<lfloor>rnd d * (pmax param - pmin param + 1)\<rfloor> + pmin param), Suc d)
      else if ptype param = PFloat then
        (Num (rnd d * (pmax param - pmin param) + pmin param), Suc d)
      else (pcurrent param, d))"

text \<open>
  The \<open>parameters.forEach\<close> of \<open>initializePopulation\<close> that fills one random individual.
\<close>

fun random_individual :: "(nat \<Rightarrow> real) \<Rightarrow> param list \<Rightarrow> pset \<Rightarrow> nat \<Rightarrow> pset \<times> nat" where
  "random_individual rnd [] ind d = (ind, d)"
| "random_individual rnd (param # params) ind d =
     (case generateRandomValue rnd param d of
        (v, d1) \<Rightarrow> random_individual rnd params (AList.update (name param) v ind) d1)"

text \<open>The loop \<open>while (population.length < size)\<close> of \<open>initializePopulation\<close>.\<close>

function fill_population ::
    "(nat \<Rightarrow> real) \<Rightarrow> param list \<Rightarrow> nat \<Rightarrow> individual list \<Rightarrow> nat \<Rightarrow> individual list \<times> nat"
where
  "fill_population rnd parameters_g size_g population d =
     (if length population < size_g then
        (case random_individual rnd parameters_g [] d of
           (ind, d1) \<Rightarrow>
             fill_population rnd parameters_g size_g
               (population @ [\<lparr>genes = ind, fitness = None\<rparr>]) d1)
      else (population, d))"
  by pat_completeness auto
termination
  by (relation "measure (\<lambda>(rnd, parameters_g, size_g, population, d). size_g - length population)")
    auto

declare fill_population.simps [simp del]

definition initializePopulation ::
    "env \<Rightarrow> param list \<Rightarrow> nat \<Rightarrow> engine \<Rightarrow> individual list \<times> engine" where
  "initializePopulation ev parameters_g size_g st =
     (case getTopResults (min 5 size_g) st of
        (topResults_g, st1) \<Rightarrow>
          (case fill_population (rand ev) parameters_g size_g
                  (map (\<lambda>r. \<lparr>genes = parameters r, fitness = Some (score r)\<rparr>) topResults_g)
                  (draws st1) of
             (population, d) \<Rightarrow> (population, st1\<lparr>draws := d\<rparr>)))"

text \<open>
  \<open>selectParent\<close>: a tournament of three. The index \<open>floor(random * length)\<close> is below
  the length, since the population is not empty and a draw is below 1.
\<close>

definition random_member :: "(nat \<Rightarrow> real) \<Rightarrow> 'a list \<Rightarrow> nat \<Rightarrow> 'a" where
  "random_member rnd population d = population ! nat \<lfloor>rnd d * real (length population)\<rfloor>"

definition selectParent :: "(nat \<Rightarrow> real) \<Rightarrow> individual list \<Rightarrow> nat \<Rightarrow> individual \<times> nat" where
  "selectParent rnd population d =
     (let best = random_member rnd population d;
          candidate = random_member rnd population (d + 1);
          best = (if fitness_or_0 best < fitness_or_0 candidate then candidate else best);
          candidate = random_member rnd population (d + 2);
          best = (if fitness_or_0 best < fitness_or_0 candidate then candidate else best)
      in (best, d + 3))"

text \<open>\<open>crossover\<close>: \<open>offspring\<close> is the object built so far.\<close>

fun crossover ::
    "(nat \<Rightarrow> real) \<Rightarrow> individual \<Rightarrow> individual \<Rightarrow> param list \<Rightarrow> pset \<Rightarrow> nat \<Rightarrow> pset \<times> nat"
where
  "crossover rnd parent1 parent2 [] offspring d = (offspring, d)"
| "crossover rnd parent1 parent2 (param # params) offspring d =
     crossover rnd parent1 parent2 params
       (AList.update (name param)
          (if rnd d < 0.5 then lookup (genes parent1) (name param)
           else lookup (genes parent2) (name param))
          offspring)
       (Suc d)"

text \<open>\<open>mutate\<close>: every parameter draws for itself whether it is drawn afresh.\<close>

fun mutate :: "(nat \<Rightarrow> real) \<Rightarrow> pset \<Rightarrow> param list \<Rightarrow> nat \<Rightarrow> pset \<times> nat" where
  "mutate rnd ind [] d = (ind, d)"
| "mutate rnd ind (param # params) d =
     (if rnd d < 0.1 then
        (case generateRandomValue rnd param (Suc d) of
           (v, d1) \<Rightarrow> mutate rnd (AList.update (name param) v ind) params d1)
      else mutate rnd ind params (Suc d))"

text \<open>
  One offspring of \<open>evolvePopulation\<close>: two parents, their crossover, and the mutation
  behind its own draw.
\<close>

definition offspring_of ::
    "(nat \<Rightarrow> real) \<Rightarrow> individual list \<Rightarrow> param list \<Rightarrow> nat \<Rightarrow> pset \<times> nat" where
  "offspring_of rnd population parameters_g d =
     (case selectParent rnd population d of
        (parent1, d1) \<Rightarrow>
          (case selectParent rnd population d1 of
             (parent2, d2) \<Rightarrow>
               (case crossover rnd parent1 parent2 parameters_g [] d2 of
                  (offspring, d3) \<Rightarrow>
                    if rnd d3 < 0.1 then mutate rnd offspring parameters_g (Suc d3)
                    else (offspring, Suc d3))))"

text \<open>The loop \<open>while (newPopulation.length < population.length)\<close>.\<close>

function offspring_loop ::
    "(nat \<Rightarrow> real) \<Rightarrow> individual list \<Rightarrow> param list \<Rightarrow> individual list \<Rightarrow> nat
      \<Rightarrow> individual list \<times> nat"
where
  "offspring_loop rnd population parameters_g newPopulation d =
     (if length newPopulation < length population then
        (case offspring_of rnd population parameters_g d of
           (offspring, d1) \<Rightarrow>
             offspring_loop rnd population parameters_g
               (newPopulation @ [\<lparr>genes = offspring, fitness = None\<rparr>]) d1)
      else (newPopulation, d))"
  by pat_completeness auto
termination
  by (relation "measure (\<lambda>(rnd, population, parameters_g, newPopulation, d).
        length population - length newPopulation)") auto

declare offspring_loop.simps [simp del]

text \<open>
  \<open>evolvePopulation\<close>: the population sorted by descending fitness (a stable sort), its
  first \<open>floor(length * 0.2)\<close> individuals, and offspring up to the old length.
\<close>

definition evolvePopulation ::
    "(nat \<Rightarrow> real) \<Rightarrow> individual list \<Rightarrow> param list \<Rightarrow> nat \<Rightarrow> individual list \<times> nat" where
  "evolvePopulation rnd population parameters_g d =
     (let sorted = sort_key (\<lambda>a. - fitness_or_0 a) population;
          eliteCount = nat \<lfloor>real (length sorted) * 0.2\<rfloor>
      in offspring_loop rnd sorted parameters_g (take eliteCount sorted) d)"

text \<open>
  The inner \<open>for\<close> loop of \<open>geneticOptimization\<close>, which evaluates the individuals
  without a fitness (\<open>!individual.fitness\<close> holds for \<open>null\<close> and for a fitness of 0).
\<close>

function evaluate_population ::
    "env \<Rightarrow> nat \<Rightarrow> individual list \<Rightarrow> engine \<Rightarrow> (error \<times> engine) + (individual list \<times> engine)"
where
  "evaluate_population ev i population st =
     (if i < length population then
        if isOptimizing st then
          if fitness_or_0 (population ! i) = 0 then
            (case testParameterSet ev (genes (population ! i)) (length (results st)) st of
               (r, st1) \<Rightarrow>
                 (let population1 = population[i := (population ! i)\<lparr>fitness := Some (score r)\<rparr>];
                      st2 = updateBestResult r (push_result r st1)
                  in case updateProgress (length (results st2)) (totalIterations st2) st2 of
                       Inl e \<Rightarrow> Inl (e, st2)
                     | Inr u \<Rightarrow> evaluate_population ev (i + 1) population1 (delay ev st2)))
          else evaluate_population ev (i + 1) population st
        else Inr (population, st)
      else Inr (population, st))"
  by pat_completeness auto
termination
  by (relation "measure (\<lambda>(ev, i, population, st). length population - i)") auto

declare evaluate_population.simps [simp del]

text \<open>The loop over the generations.\<close>

function generation_loop ::
    "env \<Rightarrow> param list \<Rightarrow> nat \<Rightarrow> nat \<Rightarrow> individual list \<Rightarrow> engine \<Rightarrow> (error \<times> engine) + engine"
where
  "generation_loop ev parameters_g generations gen population st =
     (if gen < generations then
        if isOptimizing st then
          (case evaluate_population ev 0 population st of
             Inl e \<Rightarrow> Inl e
           | Inr (population1, st1) \<Rightarrow>
               (case evolvePopulation (rand ev) population1 parameters_g (draws st1) of
                  (population2, d) \<Rightarrow>
                    generation_loop ev parameters_g generations (gen + 1) population2
                      (st1\<lparr>draws := d\<rparr>)))
        else Inr st
      else Inr st)"
  by pat_completeness auto
termination
  by (relation "measure (\<lambda>(ev, parameters_g, generations, gen, population, st).
        generations - gen)") auto

declare generation_loop.simps [simp del]

definition geneticOptimization ::
    "env \<Rightarrow> param list \<Rightarrow> nat \<Rightarrow> engine \<Rightarrow> (error \<times> engine) + engine" where
  "geneticOptimization ev parameters_g iterations st =
     (let populationSize = min 20 (max 10 (iterations div 5))
      in case initializePopulation ev parameters_g populationSize st of
           (population, st1) \<Rightarrow>
             generation_loop ev parameters_g (iterations div populationSize) 0 population st1)"


section \<open>Local search phase\<close>

definition generateNeighbors :: "pset \<Rightarrow> param \<Rightarrow> pset list" where
  "generateNeighbors ps param =
     (if ptype param = PInteger \<or> ptype param = PFloat then
        map (\<lambda>newValue. AList.update (name param) newValue ps)
          (filter (\<lambda>newValue. differs newValue (lookup ps (name param)))
             (map (perturbed param (lookup ps (name param))) [- 2, - 1, 1, 2]))
      else [])"

text \<open>
  The local variables of \<open>localSearchOptimization\<close>, with the engine: \<open>currentBest\<close>,
  \<open>improved\<close> and \<open>iteration\<close>.
\<close>

record search =
  currentBest :: result
  improved :: bool
  iteration_l :: nat
  engine_l :: engine

text \<open>The loop \<open>for (const neighbor of neighbors)\<close>.\<close>

fun neighbor_loop :: "env \<Rightarrow> nat \<Rightarrow> pset list \<Rightarrow> search \<Rightarrow> (error \<times> engine) + search" where
  "neighbor_loop ev iterations [] s = Inr s"
| "neighbor_loop ev iterations (neighbor # neighbors) s =
     (if isOptimizing (engine_l s) \<and> iteration_l s < iterations then
        (case testParameterSet ev neighbor (length (results (engine_l s))) (engine_l s) of
           (r, st1) \<Rightarrow>
             (let st2 = push_result r st1;
                  s1 = s\<lparr>iteration_l := iteration_l s + 1\<rparr>;
                  s2 = (if score (currentBest s1) < score r
                        then s1\<lparr>currentBest := r, improved := True,
                                engine_l := updateBestResult r st2\<rparr>
                        else s1\<lparr>engine_l := st2\<rparr>)
              in case updateProgress (length (results (engine_l s2)))
                        (totalIterations (engine_l s2)) (engine_l s2) of
                   Inl e \<Rightarrow> Inl (e, engine_l s2)
                 | Inr u \<Rightarrow>
                     neighbor_loop ev iterations neighbors
                       (s2\<lparr>engine_l := delay ev (engine_l s2)\<rparr>)))
      else Inr s)"

text \<open>The loop \<open>for (const param of parameters)\<close>.\<close>

fun param_loop :: "env \<Rightarrow> nat \<Rightarrow> param list \<Rightarrow> search \<Rightarrow> (error \<times> engine) + search" where
  "param_loop ev iterations [] s = Inr s"
| "param_loop ev iterations (param # params) s =
     (if isOptimizing (engine_l s) \<and> iteration_l s < iterations then
        (case neighbor_loop ev iterations
                (generateNeighbors (parameters (currentBest s)) param) s of
           Inl e \<Rightarrow> Inl e
         | Inr s1 \<Rightarrow> param_loop ev iterations params s1)
      else Inr s)"


text \<open>
  Every pass of the two loops moves \<open>iteration\<close> forward, and strictly so when it sets
  \<open>improved\<close>: the fact behind the termination of the \<open>while\<close> loop.
\<close>

lemma neighbor_loop_iteration:
  "neighbor_loop ev iterations neighbors s = Inr s' \<Longrightarrow>
     iteration_l s \<le> iteration_l s' \<and> (improved s' \<longrightarrow> improved s \<or> iteration_l s < iteration_l s')"
proof (induction neighbors arbitrary: s)
  case Nil
  then show ?case by simp
next
  case (Cons neighbor neighbors)
  show ?case
  proof (cases "isOptimizing (engine_l s) \<and> iteration_l s < iterations")
    case False
    with Cons.prems show ?thesis by auto
  next
    case True
    with Cons.prems obtain s2 where
      next_s: "neighbor_loop ev iterations neighbors s2 = Inr s'" and
      it: "iteration_l s2 = iteration_l s + 1"
      by (auto simp: Let_def split: prod.splits sum.splits if_splits)
    from Cons.IH [OF next_s] it show ?thesis by auto
  qed
qed

lemma param_loop_iteration:
  "param_loop ev iterations params s = Inr s' \<Longrightarrow>
     iteration_l s \<le> iteration_l s' \<and> (improved s' \<longrightarrow> improved s \<or> iteration_l s < iteration_l s')"
proof (induction params arbitrary: s)
  case Nil
  then show ?case by simp
next
  case (Cons param params)
  show ?case
  proof (cases "isOptimizing (engine_l s) \<and> iteration_l s < iterations")
    case False
    with Cons.prems show ?thesis by auto
  next
    case True
    with Cons.prems obtain s1 where
      inner: "neighbor_loop ev iterations (generateNeighbors (parameters (currentBest s)) param) s
                = Inr s1" and
      rest: "param_loop ev iterations params s1 = Inr s'"
      by (auto split: sum.splits)
    from neighbor_loop_iteration [OF inner] Cons.IH [OF rest] show ?thesis by auto
  qed
qed

text \<open>The loop \<open>while (improved && iteration < iterations && this.isOptimizing)\<close>.\<close>

function search_loop :: "env \<Rightarrow> param list \<Rightarrow> nat \<Rightarrow> search \<Rightarrow> (error \<times> engine) + search" where
  "search_loop ev parameters_l iterations s =
     (if improved s \<and> iteration_l s < iterations \<and> isOptimizing (engine_l s) then
        (case param_loop ev iterations parameters_l (s\<lparr>improved := False\<rparr>) of
           Inl e \<Rightarrow> Inl e
         | Inr s1 \<Rightarrow> search_loop ev parameters_l iterations s1)
      else Inr s)"
  by pat_completeness auto
termination
proof (relation "measure (\<lambda>(ev, parameters_l, iterations, s).
          2 * (iterations - iteration_l s) + (if improved s then 1 else 0))", goal_cases)
  case 1
  show ?case by simp
next
  case (2 ev parameters_l iterations s s1)
  from param_loop_iteration [OF 2(2)] 2(1) show ?case
    by (auto split: if_splits)
qed

declare search_loop.simps [simp del]

text \<open>
  \<open>localSearchOptimization\<close>. It is called behind the guard \<open>this.bestResult\<close>; without
  a best result, reading \<open>currentBest.parameters[param.name]\<close> throws.
\<close>

definition localSearchOptimization ::
    "env \<Rightarrow> param list \<Rightarrow> nat \<Rightarrow> engine \<Rightarrow> (error \<times> engine) + engine" where
  "localSearchOptimization ev parameters_l iterations st =
     (case bestResult st of
        None \<Rightarrow> Inl (TypeError, st)
      | Some b \<Rightarrow>
          (case search_loop ev parameters_l iterations
                  \<lparr>currentBest = b, improved = True, iteration_l = 0, engine_l = st\<rparr> of
             Inl e \<Rightarrow> Inl e
           | Inr s \<Rightarrow> Inr (engine_l s)))"

section \<open>The three profiles and \<open>optimize\<close>\<close>

text \<open>
  The run configuration. \<open>maxIterations\<close> is a count: the settings page reads it with
  \<open>parseInt\<close> and keeps it between 10 and 1000.
\<close>

record config =
  maxIterations :: nat
  optimizationDepth :: string

record settings =
  maxIterations_s :: "nat option"
  optimizationDepth_s :: "string option"

definition calculateTotalIterations :: "param list \<Rightarrow> config \<Rightarrow> jsnum" where
  "calculateTotalIterations parameters_o cfg =
     js_min (real (maxIterations cfg))
       (foldl
          (\<lambda>tot param.
             if ptype param = PBoolean then js_mulj tot (Fin 2)
             else if ptype param = PInteger \<or> ptype param = PFloat then
               js_mulj tot (js_min 10 (js_div (pmax param - pmin param) (pstep param)))
             else tot)
          (Fin 1) parameters_o)"

definition basicOptimization ::
    "env \<Rightarrow> param list \<Rightarrow> config \<Rightarrow> engine \<Rightarrow> (error \<times> engine) + (compiled \<times> engine)" where
  "basicOptimization ev parameters_o cfg st =
     (case generateParameterSets (rand ev) parameters_o ''basic'' (draws st) of
        (parameterSets, d) \<Rightarrow>
          (let maxSets = min (length parameterSets) (maxIterations cfg)
           in case grid_loop ev parameterSets maxSets (Fin (real maxSets)) 0 (st\<lparr>draws := d\<rparr>) of
                Inl e \<Rightarrow> Inl e
              | Inr st1 \<Rightarrow> compileResults st1))"

text \<open>Phase 2 of \<open>standardOptimization\<close>, behind its guard.\<close>

definition fine_phase ::
    "env \<Rightarrow> param list \<Rightarrow> config \<Rightarrow> engine \<Rightarrow> (error \<times> engine) + engine" where
  "fine_phase ev parameters_o cfg st =
     (if isOptimizing st \<and> 0 < length (results st) then
        (case getTopResults 5 st of
           (topResults_f, st1) \<Rightarrow>
             (let fineParameterSets = generateFineParameterSets topResults_f parameters_o;
                  remainingIterations = maxIterations cfg - length (results st1);
                  maxSets = min (length fineParameterSets) remainingIterations
              in fine_loop ev fineParameterSets maxSets (Fin (real (maxIterations cfg))) 0 st1))
      else Inr st)"

definition standardOptimization ::
    "env \<Rightarrow> param list \<Rightarrow> config \<Rightarrow> engine \<Rightarrow> (error \<times> engine) + (compiled \<times> engine)" where
  "standardOptimization ev parameters_o cfg st =
     (case generateParameterSets (rand ev) parameters_o ''coarse'' (draws st) of
        (parameterSets, d) \<Rightarrow>
          (let maxSets = min (length parameterSets) (nat \<lfloor>real (maxIterations cfg) * 0.6\<rfloor>)
           in case grid_loop ev parameterSets maxSets (Fin (real (maxIterations cfg))) 0
                     (st\<lparr>draws := d\<rparr>) of
                Inl e \<Rightarrow> Inl e
              | Inr st1 \<Rightarrow>
                  (case fine_phase ev parameters_o cfg st1 of
                     Inl e \<Rightarrow> Inl e
                   | Inr st2 \<Rightarrow> compileResults st2)))"

text \<open>Phases 2 and 3 of \<open>deepOptimization\<close>, each behind its guard.\<close>

definition genetic_phase ::
    "env \<Rightarrow> param list \<Rightarrow> config \<Rightarrow> engine \<Rightarrow> (error \<times> engine) + engine" where
  "genetic_phase ev parameters_o cfg st =
     (if isOptimizing st \<and> 0 < length (results st) then
        geneticOptimization ev parameters_o (nat \<lfloor>real (maxIterations cfg) * 0.4\<rfloor>) st
      else Inr st)"

definition local_phase ::
    "env \<Rightarrow> param list \<Rightarrow> config \<Rightarrow> engine \<Rightarrow> (error \<times> engine) + engine" where
  "local_phase ev parameters_o cfg st =
     (if isOptimizing st \<and> bestResult st \<noteq> None then
        localSearchOptimization ev parameters_o (maxIterations cfg - length (results st)) st
      else Inr st)"

definition deepOptimization ::
    "env \<Rightarrow> param list \<Rightarrow> config \<Rightarrow> engine \<Rightarrow> (error \<times> engine) + (compiled \<times> engine)" where
  "deepOptimization ev parameters_o cfg st =
     (case generateParameterSets (rand ev) parameters_o ''coarse'' (draws st) of
        (parameterSets, d) \<Rightarrow>
          (let maxSets = min (length parameterSets) (nat \<lfloor>real (maxIterations cfg) * 0.3\<rfloor>)
           in case grid_loop ev parameterSets maxSets (Fin (real (maxIterations cfg))) 0
                     (st\<lparr>draws := d\<rparr>) of
                Inl e \<Rightarrow> Inl e
              | Inr st1 \<Rightarrow>
                  (case genetic_phase ev parameters_o cfg st1 of
                     Inl e \<Rightarrow> Inl e
                   | Inr st2 \<Rightarrow>
                       (case local_phase ev parameters_o cfg st2 of
                          Inl e \<Rightarrow> Inl e
                        | Inr st3 \<Rightarrow> compileResults st3))))"

text \<open>
  \<open>optimize\<close>. A key of \<open>settings\<close> overrides the default (\<open>...settings\<close> comes last in
  the literal), also when its value is 0. The \<open>catch\<close> clause clears the flag and throws
  the error on.
\<close>

definition optimize ::
    "env \<Rightarrow> param list \<Rightarrow> settings \<Rightarrow> engine \<Rightarrow> (error \<times> engine) + (compiled \<times> engine)" where
  "optimize ev parameters_o sets st =
     (if isOptimizing st then Inl (AlreadyInProgress, st)
      else
        (let cfg = \<lparr>maxIterations = (case maxIterations_s sets of None \<Rightarrow> 100 | Some m \<Rightarrow> m),
                    optimizationDepth =
                      (case optimizationDepth_s sets of None \<Rightarrow> ''standard'' | Some x \<Rightarrow> x)\<rparr>;
             st1 = st\<lparr>isOptimizing := True, results := [], bestResult := None,
                      totalIterations := calculateTotalIterations parameters_o cfg\<rparr>
         in case (if optimizationDepth cfg = ''basic'' then basicOptimization ev parameters_o cfg st1
                  else if optimizationDepth cfg = ''deep'' then deepOptimization ev parameters_o cfg st1
                  else standardOptimization ev parameters_o cfg st1) of
              Inl (e, st2) \<Rightarrow> Inl (e, st2\<lparr>isOptimizing := False\<rparr>)
            | Inr (c, st2) \<Rightarrow> Inr (c, st2\<lparr>isOptimizing := False\<rparr>)))"

section \<open>Outcomes and invariants\<close>

text \<open>
  The engine a loop, a phase or a run leaves behind, whether it returned or threw.
\<close>

definition engine_of :: "(error \<times> engine) + engine \<Rightarrow> engine" where
  "engine_of out = (case out of Inl (e, st) \<Rightarrow> st | Inr st \<Rightarrow> st)"

definition final_engine :: "(error \<times> engine) + ('a \<times> engine) \<Rightarrow> engine" where
  "final_engine out = (case out of Inl (e, st) \<Rightarrow> st | Inr (c, st) \<Rightarrow> st)"

definition search_engine :: "(error \<times> engine) + search \<Rightarrow> engine" where
  "search_engine out = (case out of Inl (e, st) \<Rightarrow> st | Inr s \<Rightarrow> engine_l s)"

definition tracker_inv :: "engine \<Rightarrow> bool" where
  "tracker_inv st =
     (mset (map iteration (results st)) = mset [0..<length (results st)] \<and>
      (case bestResult st of
         None \<Rightarrow> results st = []
       | Some b \<Rightarrow>
           b \<in> set (results st) \<and>
           (\<forall>r\<in>set (results st).
              score r < score b \<or> (score r = score b \<and> iteration b \<le> iteration r))))"

definition search_inv :: "search \<Rightarrow> bool" where
  "search_inv s =
     (tracker_inv (engine_l s) \<and>
      (\<exists>b. bestResult (engine_l s) = Some b \<and> score b = score (currentBest s)))"

definition neighbor_step :: "env \<Rightarrow> pset \<Rightarrow> search \<Rightarrow> search" where
  "neighbor_step ev neighbor s =
     (let r = fst (testParameterSet ev neighbor (length (results (engine_l s))) (engine_l s));
          st2 = push_result r (delay ev (engine_l s))
      in if score (currentBest s) < score r
         then s\<lparr>iteration_l := iteration_l s + 1, currentBest := r, improved := True,
                 engine_l := updateBestResult r st2\<rparr>
         else s\<lparr>iteration_l := iteration_l s + 1, engine_l := st2\<rparr>)"

text \<open>
  \<open>spent st st' k\<close>: from \<open>st\<close> to \<open>st'\<close> the log has grown by at most \<open>k\<close> results, the
  run was suspended at most twice for each of them, and the callback is the same. \<open>search_spent\<close> is the same for
  the local search, whose budget is what \<open>iteration\<close> leaves of \<open>iterations\<close>.
\<close>

definition spent :: "engine \<Rightarrow> engine \<Rightarrow> nat \<Rightarrow> bool" where
  "spent st st' k =
     (length (results st) \<le> length (results st') \<and>
      length (results st') \<le> length (results st) + k \<and>
      clock st' + 2 * length (results st) \<le> clock st + 2 * length (results st') \<and>
      progressCallback st' = progressCallback st)"

definition search_spent :: "nat \<Rightarrow> search \<Rightarrow> (error \<times> engine) + search \<Rightarrow> bool" where
  "search_spent iterations s out =
     (case out of
        Inl (e, st') \<Rightarrow> spent (engine_l s) st' (iterations - iteration_l s)
      | Inr s' \<Rightarrow>
          spent (engine_l s) (engine_l s') (iteration_l s' - iteration_l s) \<and>
          iteration_l s \<le> iteration_l s' \<and> iteration_l s' \<le> max (iteration_l s) iterations)"




definition throws :: "engine \<Rightarrow> bool" where
  "throws st = (\<exists>callback. progressCallback st = Some callback \<and> (\<forall>p. isl (callback p)))"

definition same_log :: "engine \<Rightarrow> engine \<Rightarrow> bool" where
  "same_log st st' =
     (length (results st') = length (results st) \<and> bestResult st' = bestResult st \<and>
      progressCallback st' = progressCallback st)"







section \<open>Example inputs\<close>

text \<open>
  The parameter of the specification's example scenario, a parameter of a type the
  generator does not sample, an engine that has not run yet, and a world in which the
  evaluations score 10, 20 and then 15 and nobody calls \<open>stop()\<close>.
\<close>

definition length_param :: param where
  "length_param = \<lparr>name = ''length'', ptype = PInteger, pmin = 5, pmax = 50, pstep = 1, pcurrent = Num 14\<rparr>"

definition source_param :: param where
  "source_param = \<lparr>name = ''src'', ptype = POther, pmin = 0, pmax = 0, pstep = 0, pcurrent = Str ''close''\<rparr>"

definition idle_engine :: engine where
  "idle_engine = \<lparr>isOptimizing = False, results = [], bestResult = None, progressCallback = None,
     totalIterations = Fin 0, draws = 0, clock = 0\<rparr>"

definition example_env :: env where
  "example_env = \<lparr>rand = (\<lambda>d. 1 / 2),
     evaluator = (\<lambda>t ps. if t = 0 then 10 else if t = 2 then 20 else 15),
     stop_called = (\<lambda>t. False)\<rparr>"

definition basic_settings :: settings where
  "basic_settings = \<lparr>maxIterations_s = Some 20, optimizationDepth_s = Some ''basic''\<rparr>"

definition deep_settings :: settings where
  "deep_settings = \<lparr>maxIterations_s = Some 20, optimizationDepth_s = Some ''deep''\<rparr>"







section \<open>Properties\<close>

lemma length_getTopResults_state: "length (results (snd (getTopResults c st))) = length (results st)"
  by (simp add: getTopResults_def Let_def)

lemma engine_of_simps [simp]:
  "engine_of (Inl (e, st)) = st" "engine_of (Inr st) = st"
  by (simp_all add: engine_of_def)

lemma final_engine_simps [simp]:
  "final_engine (Inl (e, st)) = st" "final_engine (Inr (c, st)) = st"
  by (simp_all add: final_engine_def)

lemma search_engine_simps [simp]:
  "search_engine (Inl (e, st)) = st" "search_engine (Inr s) = engine_l s"
  by (simp_all add: search_engine_def)

lemma delay_fields [simp]:
  "results (delay ev st) = results st"
  "bestResult (delay ev st) = bestResult st"
  "progressCallback (delay ev st) = progressCallback st"
  "totalIterations (delay ev st) = totalIterations st"
  "draws (delay ev st) = draws st"
  "clock (delay ev st) = Suc (clock st)"
  by (simp_all add: delay_def stop_def)


lemma testParameterSet_simps [simp]:
  "snd (testParameterSet ev ps i st) = delay ev st"
  "iteration (fst (testParameterSet ev ps i st)) = i"
  "parameters (fst (testParameterSet ev ps i st)) = ps"
  "score (fst (testParameterSet ev ps i st)) = evaluator ev (clock st) ps"
  by (simp_all add: testParameterSet_def)

lemma push_fields [simp]:
  "results (push_result r st) = results st @ [r]"
  "bestResult (push_result r st) = bestResult st"
  "isOptimizing (push_result r st) = isOptimizing st"
  "progressCallback (push_result r st) = progressCallback st"
  "totalIterations (push_result r st) = totalIterations st"
  "draws (push_result r st) = draws st"
  "clock (push_result r st) = clock st"
  by (simp_all add: push_result_def)

lemma updateBestResult_fields [simp]:
  "results (updateBestResult r st) = results st"
  "isOptimizing (updateBestResult r st) = isOptimizing st"
  "progressCallback (updateBestResult r st) = progressCallback st"
  "totalIterations (updateBestResult r st) = totalIterations st"
  "draws (updateBestResult r st) = draws st"
  "clock (updateBestResult r st) = clock st"
  by (simp_all add: updateBestResult_def split: option.splits)

lemma getTopResults_fields [simp]:
  "results (snd (getTopResults n st)) = sort_key (\<lambda>r. - score r) (results st)"
  "bestResult (snd (getTopResults n st)) = bestResult st"
  "isOptimizing (snd (getTopResults n st)) = isOptimizing st"
  "progressCallback (snd (getTopResults n st)) = progressCallback st"
  "totalIterations (snd (getTopResults n st)) = totalIterations st"
  "draws (snd (getTopResults n st)) = draws st"
  "clock (snd (getTopResults n st)) = clock st"
  "fst (getTopResults n st) = take n (sort_key (\<lambda>r. - score r) (results st))"
  by (simp_all add: getTopResults_def Let_def)

lemma tracker_inv_delay [simp]: "tracker_inv (delay ev st) = tracker_inv st"
  by (simp add: tracker_inv_def cong: option.case_cong)

lemma tracker_inv_draws [simp]: "tracker_inv (st\<lparr>draws := d\<rparr>) = tracker_inv st"
  by (simp add: tracker_inv_def cong: option.case_cong)

lemma tracker_inv_getTopResults: "tracker_inv st \<Longrightarrow> tracker_inv (snd (getTopResults n st))"
  by (auto simp: tracker_inv_def split: option.splits)

lemma tracker_inv_iteration_less:
  assumes "tracker_inv st" "b \<in> set (results st)"
  shows "iteration b < length (results st)"
proof -
  from assms(2) have "iteration b \<in># mset (map iteration (results st))" by simp
  with assms(1) have "iteration b \<in># mset [0..<length (results st)]"
    by (simp add: tracker_inv_def)
  then show ?thesis by simp
qed

lemma tracker_inv_push_only:
  assumes inv: "tracker_inv st" and it: "iteration r = length (results st)"
    and best: "bestResult st = Some b" and le: "score r \<le> score b"
  shows "tracker_inv (push_result r st)"
proof -
  from inv best have b_in: "b \<in> set (results st)" by (simp add: tracker_inv_def)
  from tracker_inv_iteration_less [OF inv b_in] it have "iteration b \<le> iteration r" by simp
  with inv best le it show ?thesis
    by (auto simp: tracker_inv_def)
qed

lemma tracker_inv_record:
  assumes inv: "tracker_inv st" and it: "iteration r = length (results st)"
  shows "tracker_inv (updateBestResult r (push_result r st))"
proof (cases "bestResult st")
  case None
  with inv it show ?thesis
    by (simp add: tracker_inv_def updateBestResult_def)
next
  case (Some b)
  show ?thesis
  proof (cases "score b < score r")
    case True
    with inv it Some show ?thesis
      by (fastforce simp: tracker_inv_def updateBestResult_def)
  next
    case False
    then have "score r \<le> score b" by simp
    from tracker_inv_push_only [OF inv it Some this] Some False show ?thesis
      by (simp add: updateBestResult_def)
  qed
qed

lemma grid_loop_inv:
  "tracker_inv st \<Longrightarrow> length (results st) = i \<Longrightarrow>
     tracker_inv (engine_of (grid_loop ev parameterSets maxSets tot i st))"
proof (induction ev parameterSets maxSets tot i st rule: grid_loop.induct)
  case (1 ev parameterSets maxSets tot i st)
  show ?case
  proof (cases "i < maxSets \<and> isOptimizing st")
    case False
    with 1 show ?thesis by (auto simp: grid_loop.simps)
  next
    case True
    obtain r st1 where t: "testParameterSet ev (parameterSets ! i) i st = (r, st1)"
      by (cases "testParameterSet ev (parameterSets ! i) i st")
    then have st1: "st1 = delay ev st" and r: "iteration r = i"
      using testParameterSet_simps(1,2) [of ev "parameterSets ! i" i st] by simp_all
    let ?st2 = "updateBestResult r (push_result r st1)"
    have inv2: "tracker_inv ?st2"
      using "1.prems" st1 r by (intro tracker_inv_record) simp_all
    show ?thesis
    proof (cases "updateProgress (i + 1) tot ?st2")
      case (Inl e)
      with True t inv2 show ?thesis by (simp add: grid_loop.simps [of _ _ _ _ i])
    next
      case (Inr u)
      have "tracker_inv (engine_of (grid_loop ev parameterSets maxSets tot (i + 1) (delay ev ?st2)))"
        using True t Inr inv2 "1.prems" st1
        by (intro "1.IH" [OF _ _ t [symmetric] refl Inr]) simp_all
      with True t Inr show ?thesis by (simp add: grid_loop.simps [of _ _ _ _ i])
    qed
  qed
qed

lemma fine_loop_inv:
  "tracker_inv st \<Longrightarrow>
     tracker_inv (engine_of (fine_loop ev fineParameterSets maxSets tot i st))"
proof (induction ev fineParameterSets maxSets tot i st rule: fine_loop.induct)
  case (1 ev fineParameterSets maxSets tot i st)
  show ?case
  proof (cases "i < maxSets \<and> isOptimizing st")
    case False
    with 1 show ?thesis by (auto simp: fine_loop.simps)
  next
    case True
    obtain r st1 where
      t: "testParameterSet ev (fineParameterSets ! i) (length (results st)) st = (r, st1)"
      by (cases "testParameterSet ev (fineParameterSets ! i) (length (results st)) st")
    then have st1: "st1 = delay ev st" and r: "iteration r = length (results st)"
      using testParameterSet_simps(1,2) [of ev "fineParameterSets ! i" "length (results st)" st]
      by simp_all
    let ?st2 = "updateBestResult r (push_result r st1)"
    have inv2: "tracker_inv ?st2"
      using "1.prems" st1 r by (intro tracker_inv_record) simp_all
    show ?thesis
    proof (cases "updateProgress (length (results ?st2)) tot ?st2")
      case (Inl e)
      with True t inv2 show ?thesis by (simp add: fine_loop.simps [of _ _ _ _ i])
    next
      case (Inr u)
      have "tracker_inv (engine_of (fine_loop ev fineParameterSets maxSets tot (i + 1) (delay ev ?st2)))"
        using True inv2 by (intro "1.IH" [OF _ _ t [symmetric] refl Inr]) simp_all
      with True t Inr show ?thesis by (simp add: fine_loop.simps [of _ _ _ _ i])
    qed
  qed
qed

lemma evaluate_population_inv:
  "tracker_inv st \<Longrightarrow> tracker_inv (final_engine (evaluate_population ev i population st))"
proof (induction ev i population st rule: evaluate_population.induct)
  case (1 ev i population st)
  show ?case
  proof (cases "i < length population \<and> isOptimizing st")
    case False
    with 1 show ?thesis by (auto simp: evaluate_population.simps)
  next
    case True
    show ?thesis
    proof (cases "fitness_or_0 (population ! i) = 0")
      case False
      with True "1.IH"(2) "1.prems" show ?thesis
        by (simp add: evaluate_population.simps [of _ i])
    next
      case zero: True
      obtain r st1 where
        t: "testParameterSet ev (genes (population ! i)) (length (results st)) st = (r, st1)"
        by (cases "testParameterSet ev (genes (population ! i)) (length (results st)) st")
      then have st1: "st1 = delay ev st" and r: "iteration r = length (results st)"
        using testParameterSet_simps(1,2) [of ev "genes (population ! i)" "length (results st)" st]
        by simp_all
      let ?st2 = "updateBestResult r (push_result r st1)"
      let ?pop = "population[i := (population ! i)\<lparr>fitness := Some (score r)\<rparr>]"
      have inv2: "tracker_inv ?st2"
        using "1.prems" st1 r by (intro tracker_inv_record) simp_all
      show ?thesis
      proof (cases "updateProgress (length (results ?st2)) (totalIterations ?st2) ?st2")
        case (Inl e)
        with True zero t inv2 show ?thesis by (simp add: evaluate_population.simps [of _ i])
      next
        case (Inr u)
        have "tracker_inv (final_engine (evaluate_population ev (i + 1) ?pop (delay ev ?st2)))"
          using True zero inv2 by (intro "1.IH"(1) [OF _ _ _ t [symmetric] refl refl Inr]) simp_all
        with True zero t Inr show ?thesis by (simp add: evaluate_population.simps [of _ i])
      qed
    qed
  qed
qed

lemma generation_loop_inv:
  "tracker_inv st \<Longrightarrow>
     tracker_inv (engine_of (generation_loop ev parameters_g generations gen population st))"
proof (induction ev parameters_g generations gen population st rule: generation_loop.induct)
  case (1 ev parameters_g generations gen population st)
  show ?case
  proof (cases "gen < generations \<and> isOptimizing st")
    case False
    with 1 show ?thesis by (auto simp: generation_loop.simps)
  next
    case True
    from evaluate_population_inv [OF "1.prems", of ev 0 population]
    have inv1: "tracker_inv (final_engine (evaluate_population ev 0 population st))" .
    show ?thesis
    proof (cases "evaluate_population ev 0 population st")
      case (Inl x)
      with True inv1 show ?thesis
        by (cases x) (simp add: generation_loop.simps [of _ _ _ gen])
    next
      case (Inr x)
      obtain population1 st1 where x: "x = (population1, st1)" by (cases x)
      obtain population2 d where
        e: "evolvePopulation (rand ev) population1 parameters_g (draws st1) = (population2, d)"
        by (cases "evolvePopulation (rand ev) population1 parameters_g (draws st1)")
      from inv1 Inr x have "tracker_inv (st1\<lparr>draws := d\<rparr>)" by simp
      then have "tracker_inv (engine_of (generation_loop ev parameters_g generations (gen + 1)
                    population2 (st1\<lparr>draws := d\<rparr>)))"
        using True by (intro "1.IH" [OF _ _ Inr x [symmetric] e [symmetric]]) simp_all
      with True Inr x e show ?thesis by (simp add: generation_loop.simps [of _ _ _ gen])
    qed
  qed
qed

lemma initializePopulation_engine:
  "snd (initializePopulation ev parameters_g size_g st) =
     (snd (getTopResults (min 5 size_g) st))
       \<lparr>draws := draws (snd (initializePopulation ev parameters_g size_g st))\<rparr>"
  by (simp add: initializePopulation_def split: prod.splits)

lemma geneticOptimization_inv:
  assumes "tracker_inv st"
  shows "tracker_inv (engine_of (geneticOptimization ev parameters_g iterations st))"
proof -
  let ?n = "min 20 (max 10 (iterations div 5))"
  obtain population st1 where
    i: "initializePopulation ev parameters_g ?n st = (population, st1)"
    by (cases "initializePopulation ev parameters_g ?n st")
  from initializePopulation_engine [of ev parameters_g ?n st] i
  have "st1 = (snd (getTopResults (min 5 ?n) st))\<lparr>draws := draws st1\<rparr>" by simp
  with tracker_inv_getTopResults [OF assms, of "min 5 ?n"] have "tracker_inv st1"
    by (metis tracker_inv_draws)
  from generation_loop_inv [OF this] i show ?thesis
    by (simp add: geneticOptimization_def Let_def)
qed

lemma neighbor_loop_Cons:
  "neighbor_loop ev iterations (neighbor # neighbors) s =
     (if isOptimizing (engine_l s) \<and> iteration_l s < iterations then
        (case updateProgress (length (results (engine_l (neighbor_step ev neighbor s))))
                (totalIterations (engine_l (neighbor_step ev neighbor s)))
                (engine_l (neighbor_step ev neighbor s)) of
           Inl e \<Rightarrow> Inl (e, engine_l (neighbor_step ev neighbor s))
         | Inr u \<Rightarrow>
             neighbor_loop ev iterations neighbors
               ((neighbor_step ev neighbor s)
                  \<lparr>engine_l := delay ev (engine_l (neighbor_step ev neighbor s))\<rparr>))
      else Inr s)"
  by (cases "score (currentBest s) < evaluator ev (clock (engine_l s)) neighbor")
    (simp_all add: neighbor_step_def Let_def testParameterSet_def
      cong: sum.case_cong split: prod.splits)

declare neighbor_loop.simps(2) [simp del]

lemma neighbor_step_fields [simp]:
  "iteration_l (neighbor_step ev neighbor s) = iteration_l s + 1"
  "results (engine_l (neighbor_step ev neighbor s)) =
     results (engine_l s) @
       [fst (testParameterSet ev neighbor (length (results (engine_l s))) (engine_l s))]"
  "isOptimizing (engine_l (neighbor_step ev neighbor s)) = isOptimizing (delay ev (engine_l s))"
  "progressCallback (engine_l (neighbor_step ev neighbor s)) = progressCallback (engine_l s)"
  "clock (engine_l (neighbor_step ev neighbor s)) = Suc (clock (engine_l s))"
  by (simp_all add: neighbor_step_def Let_def)

lemma search_inv_delay [simp]:
  "search_inv (s\<lparr>engine_l := delay ev (engine_l s)\<rparr>) = search_inv s"
  by (simp add: search_inv_def)

lemma neighbor_step_inv:
  assumes inv: "search_inv s"
  shows "search_inv (neighbor_step ev neighbor s)"
proof -
  let ?r = "fst (testParameterSet ev neighbor (length (results (engine_l s))) (engine_l s))"
  from inv obtain b where b: "bestResult (engine_l s) = Some b" "score b = score (currentBest s)"
    and tr: "tracker_inv (engine_l s)"
    by (auto simp: search_inv_def)
  have tr': "tracker_inv (delay ev (engine_l s))" using tr by simp
  have it': "iteration ?r = length (results (delay ev (engine_l s)))" by simp
  show ?thesis
  proof (cases "score (currentBest s) < score ?r")
    case True
    from tracker_inv_record [OF tr' it'] True b show ?thesis
      by (simp add: search_inv_def updateBestResult_def neighbor_step_def Let_def)
  next
    case False
    have "tracker_inv (push_result ?r (delay ev (engine_l s)))"
      using b False by (intro tracker_inv_push_only [OF tr' it', of b]) simp_all
    with False b show ?thesis
      by (simp add: search_inv_def neighbor_step_def Let_def)
  qed
qed

lemma neighbor_loop_inv:
  "search_inv s \<Longrightarrow> tracker_inv (search_engine (neighbor_loop ev iterations neighbors s)) \<and>
     (\<forall>s'. neighbor_loop ev iterations neighbors s = Inr s' \<longrightarrow> search_inv s')"
proof (induction neighbors arbitrary: s)
  case Nil
  then show ?case by (simp add: search_inv_def)
next
  case (Cons neighbor neighbors)
  let ?s2 = "neighbor_step ev neighbor s"
  have inv2: "search_inv ?s2" by (rule neighbor_step_inv [OF Cons.prems])
  then have tr2: "tracker_inv (engine_l ?s2)" by (simp add: search_inv_def)
  have "search_inv (?s2\<lparr>engine_l := delay ev (engine_l ?s2)\<rparr>)" using inv2 by simp
  from Cons.IH [OF this] tr2 Cons.prems show ?case
    unfolding neighbor_loop_Cons
    by (auto simp: search_inv_def split: sum.splits)
qed

lemma param_loop_inv:
  "search_inv s \<Longrightarrow> tracker_inv (search_engine (param_loop ev iterations params s)) \<and>
     (\<forall>s'. param_loop ev iterations params s = Inr s' \<longrightarrow> search_inv s')"
proof (induction params arbitrary: s)
  case Nil
  then show ?case by (simp add: search_inv_def)
next
  case (Cons param params)
  let ?inner = "neighbor_loop ev iterations (generateNeighbors (parameters (currentBest s)) param) s"
  from neighbor_loop_inv [OF Cons.prems, of ev iterations
      "generateNeighbors (parameters (currentBest s)) param"]
  have inner: "tracker_inv (search_engine ?inner)" "\<And>s'. ?inner = Inr s' \<Longrightarrow> search_inv s'"
    by simp_all
  show ?case
  proof (cases ?inner)
    case (Inl x)
    with inner(1) Cons.prems show ?thesis
      by (cases x) (auto simp: search_inv_def)
  next
    case (Inr s1)
    from Cons.IH [OF inner(2) [OF Inr]] Inr Cons.prems show ?thesis
      by (auto simp: search_inv_def)
  qed
qed

lemma search_loop_inv:
  "search_inv s \<Longrightarrow> tracker_inv (search_engine (search_loop ev parameters_l iterations s))"
proof (induction ev parameters_l iterations s rule: search_loop.induct)
  case (1 ev parameters_l iterations s)
  show ?case
  proof (cases "improved s \<and> iteration_l s < iterations \<and> isOptimizing (engine_l s)")
    case False
    with "1.prems" show ?thesis
      by (auto simp: search_loop.simps [of _ _ _ s] search_inv_def)
  next
    case True
    have start: "search_inv (s\<lparr>improved := False\<rparr>)"
      using "1.prems" by (simp add: search_inv_def)
    let ?pass = "param_loop ev iterations parameters_l (s\<lparr>improved := False\<rparr>)"
    from param_loop_inv [OF start, of ev iterations parameters_l]
    have pass: "tracker_inv (search_engine ?pass)" "\<And>s'. ?pass = Inr s' \<Longrightarrow> search_inv s'"
      by simp_all
    show ?thesis
    proof (cases ?pass)
      case (Inl x)
      with pass(1) True show ?thesis
        by (cases x) (simp add: search_loop.simps [of _ _ _ s])
    next
      case (Inr s1)
      from "1.IH" [OF True Inr pass(2) [OF Inr]] True Inr show ?thesis
        by (simp add: search_loop.simps [of _ _ _ s])
    qed
  qed
qed

lemma localSearchOptimization_inv:
  assumes "tracker_inv st"
  shows "tracker_inv (engine_of (localSearchOptimization ev parameters_l iterations st))"
proof (cases "bestResult st")
  case None
  with assms show ?thesis by (simp add: localSearchOptimization_def)
next
  case (Some b)
  let ?s = "\<lparr>currentBest = b, improved = True, iteration_l = 0, engine_l = st\<rparr>"
  have "search_inv ?s" using assms Some by (simp add: search_inv_def)
  from search_loop_inv [OF this, of ev parameters_l iterations] Some show ?thesis
    by (auto simp: localSearchOptimization_def split: sum.splits)
qed

lemma tracker_inv_compileResults:
  "tracker_inv st \<Longrightarrow> tracker_inv (final_engine (compileResults st))"
  using tracker_inv_getTopResults [of st 10]
  by (auto simp: compileResults_def Let_def split: prod.splits sum.splits)

lemma fine_phase_inv:
  "tracker_inv st \<Longrightarrow> tracker_inv (engine_of (fine_phase ev parameters_o cfg st))"
proof -
  assume inv: "tracker_inv st"
  obtain top st1 where g: "getTopResults 5 st = (top, st1)"
    by (cases "getTopResults 5 st")
  then have "st1 = snd (getTopResults 5 st)" by simp
  with tracker_inv_getTopResults [OF inv, of 5] have "tracker_inv st1" by simp
  from fine_loop_inv [OF this] inv g show ?thesis
    by (simp add: fine_phase_def Let_def)
qed

lemma genetic_phase_inv:
  "tracker_inv st \<Longrightarrow> tracker_inv (engine_of (genetic_phase ev parameters_o cfg st))"
  using geneticOptimization_inv by (simp add: genetic_phase_def)

lemma local_phase_inv:
  "tracker_inv st \<Longrightarrow> tracker_inv (engine_of (local_phase ev parameters_o cfg st))"
  using localSearchOptimization_inv by (simp add: local_phase_def)

lemma basicOptimization_inv:
  assumes "tracker_inv st" "results st = []"
  shows "tracker_inv (final_engine (basicOptimization ev parameters_o cfg st))"
proof -
  obtain parameterSets d where
    g: "generateParameterSets (rand ev) parameters_o ''basic'' (draws st) = (parameterSets, d)"
    by (cases "generateParameterSets (rand ev) parameters_o ''basic'' (draws st)")
  let ?maxSets = "min (length parameterSets) (maxIterations cfg)"
  let ?out = "grid_loop ev parameterSets ?maxSets (Fin (real ?maxSets)) 0 (st\<lparr>draws := d\<rparr>)"
  have "tracker_inv (engine_of ?out)"
    using assms by (intro grid_loop_inv) simp_all
  then show ?thesis
    using g tracker_inv_compileResults
    by (cases ?out) (auto simp: basicOptimization_def Let_def)
qed

lemma standardOptimization_inv:
  assumes "tracker_inv st" "results st = []"
  shows "tracker_inv (final_engine (standardOptimization ev parameters_o cfg st))"
proof -
  obtain parameterSets d where
    g: "generateParameterSets (rand ev) parameters_o ''coarse'' (draws st) = (parameterSets, d)"
    by (cases "generateParameterSets (rand ev) parameters_o ''coarse'' (draws st)")
  let ?maxSets = "min (length parameterSets) (nat \<lfloor>real (maxIterations cfg) * 0.6\<rfloor>)"
  let ?out = "grid_loop ev parameterSets ?maxSets (Fin (real (maxIterations cfg))) 0
                (st\<lparr>draws := d\<rparr>)"
  have 1: "tracker_inv (engine_of ?out)"
    using assms by (intro grid_loop_inv) simp_all
  show ?thesis
  proof (cases ?out)
    case (Inl x)
    with 1 g show ?thesis by (cases x) (simp add: standardOptimization_def Let_def)
  next
    case (Inr st1)
    with 1 have "tracker_inv st1" by simp
    from fine_phase_inv [OF this, of ev parameters_o cfg] tracker_inv_compileResults Inr g
    show ?thesis
      by (cases "fine_phase ev parameters_o cfg st1")
        (auto simp: standardOptimization_def Let_def)
  qed
qed

lemma deepOptimization_inv:
  assumes "tracker_inv st" "results st = []"
  shows "tracker_inv (final_engine (deepOptimization ev parameters_o cfg st))"
proof -
  obtain parameterSets d where
    g: "generateParameterSets (rand ev) parameters_o ''coarse'' (draws st) = (parameterSets, d)"
    by (cases "generateParameterSets (rand ev) parameters_o ''coarse'' (draws st)")
  let ?maxSets = "min (length parameterSets) (nat \<lfloor>real (maxIterations cfg) * 0.3\<rfloor>)"
  let ?out = "grid_loop ev parameterSets ?maxSets (Fin (real (maxIterations cfg))) 0
                (st\<lparr>draws := d\<rparr>)"
  have 1: "tracker_inv (engine_of ?out)"
    using assms by (intro grid_loop_inv) simp_all
  show ?thesis
  proof (cases ?out)
    case (Inl x)
    with 1 g show ?thesis by (cases x) (simp add: deepOptimization_def Let_def)
  next
    case (Inr st1)
    with 1 have inv1: "tracker_inv st1" by simp
    show ?thesis
    proof (cases "genetic_phase ev parameters_o cfg st1")
      case (Inl x)
      with genetic_phase_inv [OF inv1, of ev parameters_o cfg] Inr g show ?thesis
        by (cases x) (simp add: deepOptimization_def Let_def)
    next
      case st2: (Inr st2)
      with genetic_phase_inv [OF inv1, of ev parameters_o cfg] have "tracker_inv st2" by simp
      from local_phase_inv [OF this, of ev parameters_o cfg] tracker_inv_compileResults Inr st2 g
      show ?thesis
        by (cases "local_phase ev parameters_o cfg st2")
          (auto simp: deepOptimization_def Let_def)
    qed
  qed
qed

lemma tracker_inv_isOptimizing [simp]:
  "tracker_inv (st\<lparr>isOptimizing := b\<rparr>) = tracker_inv st"
  by (simp add: tracker_inv_def cong: option.case_cong)

lemma final_engine_cases:
  "final_engine (case out of Inl (e, st2) \<Rightarrow> Inl (e, f st2) | Inr (c, st2) \<Rightarrow> Inr (c, f st2)) =
     f (final_engine out)"
  by (auto simp: final_engine_def split: sum.splits)

lemma tracker_inv_optimize:
  assumes "\<not> isOptimizing st"
  shows "tracker_inv (final_engine (optimize ev parameters_o sets st))"
proof -
  let ?cfg = "\<lparr>maxIterations = (case maxIterations_s sets of None \<Rightarrow> 100 | Some m \<Rightarrow> m),
                optimizationDepth =
                  (case optimizationDepth_s sets of None \<Rightarrow> ''standard'' | Some x \<Rightarrow> x)\<rparr>"
  let ?st1 = "st\<lparr>isOptimizing := True, results := [], bestResult := None,
                 totalIterations := calculateTotalIterations parameters_o ?cfg\<rparr>"
  let ?out = "if optimizationDepth ?cfg = ''basic'' then basicOptimization ev parameters_o ?cfg ?st1
              else if optimizationDepth ?cfg = ''deep'' then deepOptimization ev parameters_o ?cfg ?st1
              else standardOptimization ev parameters_o ?cfg ?st1"
  have start: "tracker_inv ?st1" "results ?st1 = []" by (simp_all add: tracker_inv_def)
  have "tracker_inv (final_engine ?out)"
    using basicOptimization_inv [OF start] standardOptimization_inv [OF start]
      deepOptimization_inv [OF start]
    by (simp only: split: if_split) blast
  then have "tracker_inv (final_engine
      (case ?out of Inl (e, st2) \<Rightarrow> Inl (e, st2\<lparr>isOptimizing := False\<rparr>)
       | Inr (c, st2) \<Rightarrow> Inr (c, st2\<lparr>isOptimizing := False\<rparr>)))"
    by (simp only: final_engine_cases tracker_inv_isOptimizing)
  with assms show ?thesis
    by (simp only: optimize_def Let_def if_False)
qed

lemmas run_defs = optimize_def basicOptimization_def generateParameterSets_def generateParameterSteps_def
     stepsPerParam_def shuffleArray_def length_param_def idle_engine_def example_env_def basic_settings_def js_round_def upt_conv_Cons Let_def
     grid_loop.simps testParameterSet_def delay_def push_result_def updateBestResult_def updateProgress_def
     compileResults_def getTopResults_def calculateImprovement_def js_div_def calculateTotalIterations_def source_param_def

lemma example_run:
  "optimize example_env [length_param] basic_settings idle_engine =
     Inr (\<lparr>success = True, totalTests = 3,
            bestResult_c = Some \<lparr>iteration = 1, parameters = [(''length'', Num 50)], score = 20\<rparr>,
            topResults =
              [\<lparr>iteration = 1, parameters = [(''length'', Num 50)], score = 20\<rparr>,
               \<lparr>iteration = 2, parameters = [(''length'', Num 28)], score = 15\<rparr>,
               \<lparr>iteration = 0, parameters = [(''length'', Num 5)], score = 10\<rparr>],
            summary_c = \<lparr>bestScore = 20, averageScore = Fin 15, improvement = Fin 0,
                          parameters_s = [(''length'', Num 50)]\<rparr>\<rparr>,
          \<lparr>isOptimizing = False,
            results =
              [\<lparr>iteration = 1, parameters = [(''length'', Num 50)], score = 20\<rparr>,
               \<lparr>iteration = 2, parameters = [(''length'', Num 28)], score = 15\<rparr>,
               \<lparr>iteration = 0, parameters = [(''length'', Num 5)], score = 10\<rparr>],
            bestResult = Some \<lparr>iteration = 1, parameters = [(''length'', Num 50)], score = 20\<rparr>,
            progressCallback = None, totalIterations = Fin 10, draws = 2, clock = 6\<rparr>)"
  by (simp add: run_defs)

lemma getTopResults_head_max:
  assumes "r \<in> set rs"
  shows "score r \<le> score (sort_key (\<lambda>r. - score r) rs ! 0)"
proof -
  let ?s = "sort_key (\<lambda>r. - score r) rs"
  from assms have ne: "0 < length ?s" by (cases rs) simp_all
  have srt: "sorted (map (\<lambda>r. - score r) ?s)" by (rule sorted_sort_key)
  from assms have "r \<in> set ?s" by simp
  then obtain i where i: "i < length ?s" "?s ! i = r" by (meson in_set_conv_nth)
  from srt i have "map (\<lambda>r. - score r) ?s ! 0 \<le> map (\<lambda>r. - score r) ?s ! i"
    by (intro sorted_nth_mono) simp_all
  with i ne show ?thesis by (simp add: nth_map)
qed

lemma compileResults_improvement:
  assumes inv: "tracker_inv st" and c: "compileResults st = Inr (c, st')"
  shows "improvement (summary_c c) = Fin 0 \<or> improvement (summary_c c) = NaN"
proof (cases "length (results st) < 2")
  case True
  with c show ?thesis
    by (auto simp: compileResults_def calculateImprovement_def getTopResults_def Let_def
        split: sum.splits)
next
  case False
  then have ne: "results st \<noteq> []" by auto
  with inv obtain b where b: "bestResult st = Some b" "b \<in> set (results st)"
    by (cases "bestResult st") (auto simp: tracker_inv_def)
  with inv have mx: "\<forall>r\<in>set (results st). score r \<le> score b"
    by (fastforce simp: tracker_inv_def)
  let ?s = "sort_key (\<lambda>r. - score r) (results st)"
  from ne have "0 < length ?s" by simp
  then have "?s ! 0 \<in> set ?s" by (rule nth_mem)
  then have "?s ! 0 \<in> set (results st)" by simp
  with mx have "score (?s ! 0) \<le> score b" by blast
  with getTopResults_head_max [OF b(2)] have eq: "score (?s ! 0) = score b" by simp
  from c False b eq show ?thesis
    by (auto simp: compileResults_def calculateImprovement_def getTopResults_def Let_def js_div_def
        split: sum.splits)
qed

lemma compileResults_success:
  "compileResults st = Inr (c, st') \<Longrightarrow> success c \<and> totalTests c = length (results st)"
  by (auto simp: compileResults_def Let_def split: sum.splits prod.splits)

lemma compileResults_empty:
  assumes inv: "tracker_inv st" and c: "compileResults st = Inr (c, st')" and z: "totalTests c = 0"
  shows "averageScore (summary_c c) = NaN \<and> bestScore (summary_c c) = 0 \<and>
         parameters_s (summary_c c) = [] \<and> improvement (summary_c c) = Fin 0"
proof -
  from compileResults_success [OF c] z have e: "results st = []" by simp
  with inv have "bestResult st = None"
    by (cases "bestResult st") (auto simp: tracker_inv_def)
  with c e show ?thesis
    by (auto simp: compileResults_def calculateImprovement_def getTopResults_def Let_def js_div_def
        split: sum.splits)
qed

lemma basicOptimization_compiled:
  assumes "tracker_inv st" "results st = []"
    and "basicOptimization ev parameters_o cfg st = Inr (c, st')"
  shows "\<exists>st1. tracker_inv st1 \<and> compileResults st1 = Inr (c, st')"
proof -
  obtain parameterSets d where
    g: "generateParameterSets (rand ev) parameters_o ''basic'' (draws st) = (parameterSets, d)"
    by (cases "generateParameterSets (rand ev) parameters_o ''basic'' (draws st)")
  let ?maxSets = "min (length parameterSets) (maxIterations cfg)"
  let ?out = "grid_loop ev parameterSets ?maxSets (Fin (real ?maxSets)) 0 (st\<lparr>draws := d\<rparr>)"
  have "tracker_inv (engine_of ?out)"
    using assms by (intro grid_loop_inv) simp_all
  with assms(3) g show ?thesis
    by (cases ?out) (auto simp: basicOptimization_def Let_def)
qed

lemma standardOptimization_compiled:
  assumes "tracker_inv st" "results st = []"
    and "standardOptimization ev parameters_o cfg st = Inr (c, st')"
  shows "\<exists>st1. tracker_inv st1 \<and> compileResults st1 = Inr (c, st')"
proof -
  obtain parameterSets d where
    g: "generateParameterSets (rand ev) parameters_o ''coarse'' (draws st) = (parameterSets, d)"
    by (cases "generateParameterSets (rand ev) parameters_o ''coarse'' (draws st)")
  let ?maxSets = "min (length parameterSets) (nat \<lfloor>real (maxIterations cfg) * 0.6\<rfloor>)"
  let ?out = "grid_loop ev parameterSets ?maxSets (Fin (real (maxIterations cfg))) 0
                (st\<lparr>draws := d\<rparr>)"
  have 1: "tracker_inv (engine_of ?out)"
    using assms by (intro grid_loop_inv) simp_all
  show ?thesis
  proof (cases ?out)
    case (Inl x)
    with assms(3) g show ?thesis by (simp add: standardOptimization_def Let_def)
  next
    case (Inr st1)
    with 1 have "tracker_inv st1" by simp
    from fine_phase_inv [OF this, of ev parameters_o cfg] Inr g assms(3)
    show ?thesis
      by (cases "fine_phase ev parameters_o cfg st1")
        (auto simp: standardOptimization_def Let_def)
  qed
qed

lemma deepOptimization_compiled:
  assumes "tracker_inv st" "results st = []"
    and "deepOptimization ev parameters_o cfg st = Inr (c, st')"
  shows "\<exists>st1. tracker_inv st1 \<and> compileResults st1 = Inr (c, st')"
proof -
  obtain parameterSets d where
    g: "generateParameterSets (rand ev) parameters_o ''coarse'' (draws st) = (parameterSets, d)"
    by (cases "generateParameterSets (rand ev) parameters_o ''coarse'' (draws st)")
  let ?maxSets = "min (length parameterSets) (nat \<lfloor>real (maxIterations cfg) * 0.3\<rfloor>)"
  let ?out = "grid_loop ev parameterSets ?maxSets (Fin (real (maxIterations cfg))) 0
                (st\<lparr>draws := d\<rparr>)"
  have 1: "tracker_inv (engine_of ?out)"
    using assms by (intro grid_loop_inv) simp_all
  show ?thesis
  proof (cases ?out)
    case (Inl x)
    with assms(3) g show ?thesis by (simp add: deepOptimization_def Let_def)
  next
    case (Inr st1)
    with 1 have inv1: "tracker_inv st1" by simp
    show ?thesis
    proof (cases "genetic_phase ev parameters_o cfg st1")
      case (Inl x)
      with assms(3) Inr g show ?thesis by (simp add: deepOptimization_def Let_def)
    next
      case st2: (Inr st2)
      with genetic_phase_inv [OF inv1, of ev parameters_o cfg] have "tracker_inv st2" by simp
      from local_phase_inv [OF this, of ev parameters_o cfg] Inr st2 g assms(3)
      show ?thesis
        by (cases "local_phase ev parameters_o cfg st2")
          (auto simp: deepOptimization_def Let_def)
    qed
  qed
qed

lemma optimize_compiled:
  assumes "optimize ev parameters_o sets st = Inr (c, st')"
  shows "\<exists>st1 st2. tracker_inv st1 \<and> compileResults st1 = Inr (c, st2) \<and>
           st' = st2\<lparr>isOptimizing := False\<rparr>"
proof -
  let ?cfg = "\<lparr>maxIterations = (case maxIterations_s sets of None \<Rightarrow> 100 | Some m \<Rightarrow> m),
                optimizationDepth =
                  (case optimizationDepth_s sets of None \<Rightarrow> ''standard'' | Some x \<Rightarrow> x)\<rparr>"
  let ?st1 = "st\<lparr>isOptimizing := True, results := [], bestResult := None,
                 totalIterations := calculateTotalIterations parameters_o ?cfg\<rparr>"
  let ?out = "if optimizationDepth ?cfg = ''basic'' then basicOptimization ev parameters_o ?cfg ?st1
              else if optimizationDepth ?cfg = ''deep'' then deepOptimization ev parameters_o ?cfg ?st1
              else standardOptimization ev parameters_o ?cfg ?st1"
  have start: "tracker_inv ?st1" "results ?st1 = []" by (simp_all add: tracker_inv_def)
  from assms have idle: "\<not> isOptimizing st" by (auto simp: optimize_def)
  with assms have "(case ?out of Inl (e, st2) \<Rightarrow> Inl (e, st2\<lparr>isOptimizing := False\<rparr>)
       | Inr (c, st2) \<Rightarrow> Inr (c, st2\<lparr>isOptimizing := False\<rparr>)) = Inr (c, st')"
    by (simp only: optimize_def Let_def if_False)
  then obtain st2 where out: "?out = Inr (c, st2)" and st': "st' = st2\<lparr>isOptimizing := False\<rparr>"
    by (auto split: sum.splits)
  from out consider
      "basicOptimization ev parameters_o ?cfg ?st1 = Inr (c, st2)"
    | "deepOptimization ev parameters_o ?cfg ?st1 = Inr (c, st2)"
    | "standardOptimization ev parameters_o ?cfg ?st1 = Inr (c, st2)"
    by (metis (full_types))
  then have "\<exists>st1. tracker_inv st1 \<and> compileResults st1 = Inr (c, st2)"
  proof cases
    case 1
    then show ?thesis by (rule basicOptimization_compiled [OF start])
  next
    case 2
    then show ?thesis by (rule deepOptimization_compiled [OF start])
  next
    case 3
    then show ?thesis by (rule standardOptimization_compiled [OF start])
  qed
  with st' show ?thesis by blast
qed

lemma spent_refl [simp]: "spent st st k"
  by (simp add: spent_def)

lemma spent_trans: "spent a b j \<Longrightarrow> spent b c k \<Longrightarrow> spent a c (j + k)"
  by (auto simp: spent_def)

lemma spent_mono: "spent a b j \<Longrightarrow> j \<le> k \<Longrightarrow> spent a b k"
  by (auto simp: spent_def)

lemma spent_draws [simp]: "spent (st\<lparr>draws := d\<rparr>) st' k = spent st st' k"
  by (simp add: spent_def)

lemma spent_draws' [simp]: "spent st (st'\<lparr>draws := d\<rparr>) k = spent st st' k"
  by (simp add: spent_def)

lemma spent_isOptimizing [simp]: "spent st (st'\<lparr>isOptimizing := b\<rparr>) k = spent st st' k"
  by (simp add: spent_def)

lemma spent_getTopResults [simp]: "spent (snd (getTopResults n st)) st' k = spent st st' k"
  by (simp add: spent_def)

lemma spent_getTopResults' [simp]: "spent st (snd (getTopResults n st')) k = spent st st' k"
  by (simp add: spent_def)

lemma spent_record:
  "spent st (updateBestResult r (push_result r (delay ev st))) 1"
  "spent st (delay ev' (updateBestResult r (push_result r (delay ev st)))) 1"
  by (simp_all add: spent_def)

lemma spent_Suc:
  assumes "spent (delay ev' (updateBestResult r (push_result r (delay ev st)))) st' k"
  shows "spent st st' (Suc k)"
  using spent_trans [OF spent_record(2) assms] by simp

lemma grid_loop_spent:
  "spent st (engine_of (grid_loop ev parameterSets maxSets tot i st)) (maxSets - i)"
proof (induction ev parameterSets maxSets tot i st rule: grid_loop.induct)
  case (1 ev parameterSets maxSets tot i st)
  show ?case
  proof (cases "i < maxSets \<and> isOptimizing st")
    case False
    then show ?thesis by (auto simp: grid_loop.simps)
  next
    case True
    obtain r st1 where t: "testParameterSet ev (parameterSets ! i) i st = (r, st1)"
      by (cases "testParameterSet ev (parameterSets ! i) i st")
    then have st1: "st1 = delay ev st"
      using testParameterSet_simps(1) [of ev "parameterSets ! i" i st] by simp
    let ?st2 = "updateBestResult r (push_result r st1)"
    show ?thesis
    proof (cases "updateProgress (i + 1) tot ?st2")
      case (Inl e)
      from spent_mono [OF spent_record(1) [of st r ev], of "maxSets - i"] True
      have "spent st ?st2 (maxSets - i)" by (auto simp: st1)
      with True t Inl show ?thesis by (simp add: grid_loop.simps [of _ _ _ _ i])
    next
      case (Inr u)
      from "1.IH" [OF _ _ t [symmetric] refl Inr] True
      have "spent (delay ev ?st2)
              (engine_of (grid_loop ev parameterSets maxSets tot (i + 1) (delay ev ?st2)))
              (maxSets - (i + 1))" by simp
      from spent_Suc [OF this [unfolded st1]] True
      have "spent st (engine_of (grid_loop ev parameterSets maxSets tot (i + 1) (delay ev ?st2)))
              (maxSets - i)" by (simp add: Suc_diff_Suc st1)
      with True t Inr show ?thesis by (simp add: grid_loop.simps [of _ _ _ _ i])
    qed
  qed
qed

lemma fine_loop_spent:
  "spent st (engine_of (fine_loop ev fineParameterSets maxSets tot i st)) (maxSets - i)"
proof (induction ev fineParameterSets maxSets tot i st rule: fine_loop.induct)
  case (1 ev fineParameterSets maxSets tot i st)
  show ?case
  proof (cases "i < maxSets \<and> isOptimizing st")
    case False
    then show ?thesis by (auto simp: fine_loop.simps)
  next
    case True
    obtain r st1 where
      t: "testParameterSet ev (fineParameterSets ! i) (length (results st)) st = (r, st1)"
      by (cases "testParameterSet ev (fineParameterSets ! i) (length (results st)) st")
    then have st1: "st1 = delay ev st"
      using testParameterSet_simps(1) [of ev "fineParameterSets ! i" "length (results st)" st]
      by simp
    let ?st2 = "updateBestResult r (push_result r st1)"
    show ?thesis
    proof (cases "updateProgress (length (results ?st2)) tot ?st2")
      case (Inl e)
      from spent_mono [OF spent_record(1) [of st r ev], of "maxSets - i"] True
      have "spent st ?st2 (maxSets - i)" by (auto simp: st1)
      with True t Inl show ?thesis by (simp add: fine_loop.simps [of _ _ _ _ i])
    next
      case (Inr u)
      from "1.IH" [OF _ _ t [symmetric] refl Inr] True
      have "spent (delay ev ?st2)
              (engine_of (fine_loop ev fineParameterSets maxSets tot (i + 1) (delay ev ?st2)))
              (maxSets - (i + 1))" by simp
      from spent_Suc [OF this [unfolded st1]] True
      have "spent st (engine_of (fine_loop ev fineParameterSets maxSets tot (i + 1) (delay ev ?st2)))
              (maxSets - i)" by (simp add: Suc_diff_Suc st1)
      with True t Inr show ?thesis by (simp add: fine_loop.simps [of _ _ _ _ i])
    qed
  qed
qed

lemma evaluate_population_spent:
  "spent st (final_engine (evaluate_population ev i population st)) (length population - i) \<and>
   (\<forall>population' st'. evaluate_population ev i population st = Inr (population', st') \<longrightarrow>
      length population' = length population)"
proof (induction ev i population st rule: evaluate_population.induct)
  case (1 ev i population st)
  show ?case
  proof (cases "i < length population \<and> isOptimizing st")
    case False
    then show ?thesis by (auto simp: evaluate_population.simps)
  next
    case True
    show ?thesis
    proof (cases "fitness_or_0 (population ! i) = 0")
      case False
      from "1.IH"(2) [OF _ _ False] True
      have "spent st (final_engine (evaluate_population ev (i + 1) population st))
              (length population - (i + 1))"
        and "\<forall>population' st'. evaluate_population ev (i + 1) population st = Inr (population', st') \<longrightarrow>
              length population' = length population"
        by simp_all
      with True False show ?thesis
        by (auto simp: evaluate_population.simps [of _ i] elim: spent_mono)
    next
      case zero: True
      obtain r st1 where
        t: "testParameterSet ev (genes (population ! i)) (length (results st)) st = (r, st1)"
        by (cases "testParameterSet ev (genes (population ! i)) (length (results st)) st")
      then have st1: "st1 = delay ev st"
        using testParameterSet_simps(1) [of ev "genes (population ! i)" "length (results st)" st]
        by simp
      let ?st2 = "updateBestResult r (push_result r st1)"
      let ?pop = "population[i := (population ! i)\<lparr>fitness := Some (score r)\<rparr>]"
      show ?thesis
      proof (cases "updateProgress (length (results ?st2)) (totalIterations ?st2) ?st2")
        case (Inl e)
        from spent_mono [OF spent_record(1) [of st r ev], of "length population - i"] True
        have "spent st ?st2 (length population - i)" by (auto simp: st1)
        with True zero t Inl show ?thesis by (simp add: evaluate_population.simps [of _ i])
      next
        case (Inr u)
        from "1.IH"(1) [OF _ _ zero t [symmetric] refl refl Inr] True
        have ih: "spent (delay ev ?st2)
                (final_engine (evaluate_population ev (i + 1) ?pop (delay ev ?st2)))
                (length population - (i + 1))"
          and len: "\<forall>population' st'.
                evaluate_population ev (i + 1) ?pop (delay ev ?st2) = Inr (population', st') \<longrightarrow>
                length population' = length population"
          by simp_all
        from spent_Suc [OF ih [unfolded st1]] True
        have "spent st (final_engine (evaluate_population ev (i + 1) ?pop (delay ev ?st2)))
                (length population - i)" by (simp add: Suc_diff_Suc st1)
        with True zero t Inr len show ?thesis by (simp add: evaluate_population.simps [of _ i])
      qed
    qed
  qed
qed

lemma offspring_loop_length:
  "length newPopulation \<le> length population \<Longrightarrow>
     length (fst (offspring_loop rnd population parameters_g newPopulation d)) = length population"
proof (induction rnd population parameters_g newPopulation d rule: offspring_loop.induct)
  case (1 rnd population parameters_g newPopulation d)
  show ?case
  proof (cases "length newPopulation < length population")
    case False
    with "1.prems" show ?thesis by (simp add: offspring_loop.simps [of _ _ _ newPopulation])
  next
    case True
    obtain offspring d1 where o: "offspring_of rnd population parameters_g d = (offspring, d1)"
      by (cases "offspring_of rnd population parameters_g d")
    from "1.IH" [OF True o [symmetric]] True o show ?thesis
      by (simp add: offspring_loop.simps [of _ _ _ newPopulation])
  qed
qed

lemma evolvePopulation_length:
  "length (fst (evolvePopulation rnd population parameters_g d)) = length population"
  by (simp add: evolvePopulation_def Let_def offspring_loop_length)

lemma generation_loop_spent:
  "spent st (engine_of (generation_loop ev parameters_g generations gen population st))
     ((generations - gen) * length population)"
proof (induction ev parameters_g generations gen population st rule: generation_loop.induct)
  case (1 ev parameters_g generations gen population st)
  show ?case
  proof (cases "gen < generations \<and> isOptimizing st")
    case False
    then show ?thesis by (auto simp: generation_loop.simps)
  next
    case True
    then have budget: "length population \<le> (generations - gen) * length population"
      by (cases "generations - gen") simp_all
    from evaluate_population_spent [of st ev 0 population]
    have e1: "spent st (final_engine (evaluate_population ev 0 population st)) (length population)"
      and len: "\<And>population' st'. evaluate_population ev 0 population st = Inr (population', st') \<Longrightarrow>
                  length population' = length population"
      by simp_all
    show ?thesis
    proof (cases "evaluate_population ev 0 population st")
      case (Inl x)
      with True spent_mono [OF e1 budget] show ?thesis
        by (cases x) (simp add: generation_loop.simps [of _ _ _ gen])
    next
      case (Inr x)
      obtain population1 st1 where x: "x = (population1, st1)" by (cases x)
      obtain population2 d where
        e: "evolvePopulation (rand ev) population1 parameters_g (draws st1) = (population2, d)"
        by (cases "evolvePopulation (rand ev) population1 parameters_g (draws st1)")
      from evolvePopulation_length [of "rand ev" population1 parameters_g "draws st1"] e
        len [OF Inr [unfolded x]]
      have l2: "length population2 = length population" by simp
      from "1.IH" [OF _ _ Inr x [symmetric] e [symmetric]] True l2
      have "spent st1
              (engine_of (generation_loop ev parameters_g generations (gen + 1) population2
                 (st1\<lparr>draws := d\<rparr>)))
              ((generations - (gen + 1)) * length population)" by simp
      from spent_trans [OF _ this, of st "length population"] e1 Inr x True
      have "spent st
              (engine_of (generation_loop ev parameters_g generations (gen + 1) population2
                 (st1\<lparr>draws := d\<rparr>)))
              ((generations - gen) * length population)"
        by (simp add: Suc_diff_Suc [symmetric] del: Suc_diff_Suc)
      with True Inr x e show ?thesis by (simp add: generation_loop.simps [of _ _ _ gen])
    qed
  qed
qed

lemma fill_population_length:
  "length population \<le> size_g \<Longrightarrow>
     length (fst (fill_population rnd parameters_g size_g population d)) = size_g"
proof (induction rnd parameters_g size_g population d rule: fill_population.induct)
  case (1 rnd parameters_g size_g population d)
  show ?case
  proof (cases "length population < size_g")
    case False
    with "1.prems" show ?thesis by (simp add: fill_population.simps [of _ _ _ population])
  next
    case True
    obtain ind d1 where r: "random_individual rnd parameters_g [] d = (ind, d1)"
      by (cases "random_individual rnd parameters_g [] d")
    from "1.IH" [OF True r [symmetric]] True r show ?thesis
      by (simp add: fill_population.simps [of _ _ _ population])
  qed
qed

lemma initializePopulation_length:
  "length (fst (initializePopulation ev parameters_g size_g st)) = size_g"
proof -
  let ?top = "fst (getTopResults (min 5 size_g) st)"
  let ?seed = "map (\<lambda>r. \<lparr>genes = parameters r, fitness = Some (score r)\<rparr>) ?top"
  have "length ?seed \<le> size_g" by simp
  from fill_population_length [OF this, of "rand ev" parameters_g
      "draws (snd (getTopResults (min 5 size_g) st))"]
  show ?thesis
    by (cases "getTopResults (min 5 size_g) st")
      (auto simp: initializePopulation_def split: prod.splits)
qed

lemma geneticOptimization_spent:
  "spent st (engine_of (geneticOptimization ev parameters_g iterations st)) iterations"
proof -
  let ?n = "min 20 (max 10 (iterations div 5))"
  obtain population st1 where
    i: "initializePopulation ev parameters_g ?n st = (population, st1)"
    by (cases "initializePopulation ev parameters_g ?n st")
  from initializePopulation_length [of ev parameters_g ?n st] i
  have len: "length population = ?n" by simp
  from initializePopulation_engine [of ev parameters_g ?n st] i
  have st1: "st1 = (snd (getTopResults (min 5 ?n) st))\<lparr>draws := draws st1\<rparr>" by simp
  have "spent st1 (engine_of (generation_loop ev parameters_g (iterations div ?n) 0 population st1))
          ((iterations div ?n - 0) * length population)"
    by (rule generation_loop_spent)
  then have "spent st1
          (engine_of (generation_loop ev parameters_g (iterations div ?n) 0 population st1))
          iterations"
    by (rule spent_mono) (simp add: len)
  then have "spent st
          (engine_of (generation_loop ev parameters_g (iterations div ?n) 0 population st1))
          iterations"
    by (subst (asm) st1) simp
  with i show ?thesis
    by (simp add: geneticOptimization_def Let_def)
qed

lemma neighbor_step_spent:
  "spent (engine_l s) (engine_l (neighbor_step ev neighbor s)) 1"
  "spent (engine_l s) (delay ev' (engine_l (neighbor_step ev neighbor s))) 1"
  by (simp_all add: spent_def)

lemma search_spent_refl [simp]: "search_spent iterations s (Inr s)"
  by (simp add: search_spent_def)

lemma search_spent_trans:
  assumes "spent (engine_l s) (engine_l s1) (iteration_l s1 - iteration_l s)"
    and "iteration_l s \<le> iteration_l s1" "iteration_l s1 \<le> max (iteration_l s) iterations"
    and "search_spent iterations s1 out"
  shows "search_spent iterations s out"
proof (cases out)
  case (Inl x)
  obtain e st' where x: "x = (e, st')" by (cases x)
  from assms(4) Inl x have "spent (engine_l s1) st' (iterations - iteration_l s1)"
    by (simp add: search_spent_def)
  from spent_trans [OF assms(1) this] assms(2,3) Inl x show ?thesis
    by (auto simp: search_spent_def max_def elim: spent_mono split: if_splits)
next
  case (Inr s')
  with assms(4) have "spent (engine_l s1) (engine_l s') (iteration_l s' - iteration_l s1)"
    "iteration_l s1 \<le> iteration_l s'" "iteration_l s' \<le> max (iteration_l s1) iterations"
    by (simp_all add: search_spent_def)
  with spent_trans [OF assms(1) this(1)] assms(2,3) Inr show ?thesis
    by (auto simp: search_spent_def max_def split: if_splits)
qed

lemma neighbor_loop_spent:
  "search_spent iterations s (neighbor_loop ev iterations neighbors s)"
proof (induction neighbors arbitrary: s)
  case Nil
  show ?case by simp
next
  case (Cons neighbor neighbors)
  let ?s2 = "neighbor_step ev neighbor s"
  let ?s3 = "?s2\<lparr>engine_l := delay ev (engine_l ?s2)\<rparr>"
  show ?case
  proof (cases "isOptimizing (engine_l s) \<and> iteration_l s < iterations")
    case False
    then show ?thesis by (auto simp: neighbor_loop_Cons)
  next
    case True
    show ?thesis
    proof (cases "updateProgress (length (results (engine_l ?s2))) (totalIterations (engine_l ?s2))
                    (engine_l ?s2)")
      case (Inl e)
      from spent_mono [OF neighbor_step_spent(1) [of s ev neighbor], of "iterations - iteration_l s"]
        True
      have "spent (engine_l s) (engine_l ?s2) (iterations - iteration_l s)" by auto
      with True Inl show ?thesis
        by (simp add: neighbor_loop_Cons search_spent_def)
    next
      case (Inr u)
      have "search_spent iterations s (neighbor_loop ev iterations neighbors ?s3)"
        using True neighbor_step_spent(2) [of s ev ev neighbor]
        by (intro search_spent_trans [OF _ _ _ Cons.IH [of ?s3]]) auto
      with True Inr show ?thesis
        by (simp add: neighbor_loop_Cons)
    qed
  qed
qed

lemma param_loop_spent:
  "search_spent iterations s (param_loop ev iterations params s)"
proof (induction params arbitrary: s)
  case Nil
  show ?case by simp
next
  case (Cons param params)
  let ?inner = "neighbor_loop ev iterations (generateNeighbors (parameters (currentBest s)) param) s"
  have inner: "search_spent iterations s ?inner" by (rule neighbor_loop_spent)
  show ?case
  proof (cases "isOptimizing (engine_l s) \<and> iteration_l s < iterations")
    case False
    then show ?thesis by auto
  next
    case True
    show ?thesis
    proof (cases ?inner)
      case (Inl x)
      with inner True show ?thesis by (simp add: search_spent_def)
    next
      case (Inr s1)
      from inner Inr have "search_spent iterations s (param_loop ev iterations params s1)"
        by (intro search_spent_trans [OF _ _ _ Cons.IH [of s1]]) (simp_all add: search_spent_def)
      with True Inr show ?thesis by simp
    qed
  qed
qed

lemma search_loop_spent:
  "search_spent iterations s (search_loop ev parameters_l iterations s)"
proof (induction ev parameters_l iterations s rule: search_loop.induct)
  case (1 ev parameters_l iterations s)
  show ?case
  proof (cases "improved s \<and> iteration_l s < iterations \<and> isOptimizing (engine_l s)")
    case False
    then show ?thesis by (auto simp: search_loop.simps [of _ _ _ s])
  next
    case True
    let ?pass = "param_loop ev iterations parameters_l (s\<lparr>improved := False\<rparr>)"
    have pass: "search_spent iterations (s\<lparr>improved := False\<rparr>) ?pass"
      by (rule param_loop_spent)
    show ?thesis
    proof (cases ?pass)
      case (Inl x)
      with pass True show ?thesis
        by (simp add: search_loop.simps [of _ _ _ s] search_spent_def)
    next
      case (Inr s1)
      from pass Inr have "search_spent iterations s (search_loop ev parameters_l iterations s1)"
        by (intro search_spent_trans [OF _ _ _ "1.IH" [OF True Inr]])
          (simp_all add: search_spent_def)
      with True Inr show ?thesis by (simp add: search_loop.simps [of _ _ _ s])
    qed
  qed
qed

lemma localSearchOptimization_spent:
  "spent st (engine_of (localSearchOptimization ev parameters_l iterations st)) iterations"
proof (cases "bestResult st")
  case None
  then show ?thesis by (simp add: localSearchOptimization_def)
next
  case (Some b)
  let ?s = "\<lparr>currentBest = b, improved = True, iteration_l = 0, engine_l = st\<rparr>"
  from search_loop_spent [of iterations ?s ev parameters_l] Some show ?thesis
    by (auto simp: localSearchOptimization_def search_spent_def elim: spent_mono
        split: sum.splits)
qed

lemma spent_within:
  assumes "spent a b j" "spent b c k" "length (results c) \<le> length (results a) + n"
  shows "spent a c n"
  using assms by (auto simp: spent_def)

lemma final_engine_compileResults:
  "final_engine (compileResults st) = snd (getTopResults 10 st)"
  by (auto simp: compileResults_def Let_def split: prod.splits sum.splits)

lemma spent_compileResults [simp]:
  "spent st (final_engine (compileResults st')) k = spent st st' k"
  by (simp add: final_engine_compileResults)

lemma fine_phase_spent:
  "spent st (engine_of (fine_phase ev parameters_o cfg st)) (maxIterations cfg - length (results st))"
proof -
  obtain top st1 where g: "getTopResults 5 st = (top, st1)"
    by (cases "getTopResults 5 st")
  then have "st1 = snd (getTopResults 5 st)" by simp
  then have st1: "length (results st1) = length (results st)" "clock st1 = clock st"
    "progressCallback st1 = progressCallback st"
    by simp_all
  let ?fine = "generateFineParameterSets top parameters_o"
  let ?maxSets = "min (length ?fine) (maxIterations cfg - length (results st1))"
  let ?out = "fine_loop ev ?fine ?maxSets (Fin (real (maxIterations cfg))) 0 st1"
  have "spent st1 (engine_of ?out) (?maxSets - 0)"
    by (rule fine_loop_spent)
  then have "spent st1 (engine_of ?out) (maxIterations cfg - length (results st1))"
    by (rule spent_mono) simp
  with st1 have "spent st (engine_of ?out) (maxIterations cfg - length (results st))"
    by (simp add: spent_def)
  with g show ?thesis
    by (simp add: fine_phase_def Let_def)
qed

lemma genetic_phase_spent:
  "spent st (engine_of (genetic_phase ev parameters_o cfg st))
     (nat \<lfloor>real (maxIterations cfg) * 0.4\<rfloor>)"
  by (simp add: genetic_phase_def geneticOptimization_spent)

lemma local_phase_spent:
  "spent st (engine_of (local_phase ev parameters_o cfg st))
     (maxIterations cfg - length (results st))"
  by (simp add: local_phase_def localSearchOptimization_spent)

lemma nat_floor_le:
  assumes "0 \<le> x"
  shows "real (nat \<lfloor>x\<rfloor>) \<le> x"
proof -
  from assms have "0 \<le> \<lfloor>x\<rfloor>" by simp
  then have "real (nat \<lfloor>x\<rfloor>) = of_int \<lfloor>x\<rfloor>" by (simp only: of_nat_nat)
  also have "\<dots> \<le> x" by (rule of_int_floor_le)
  finally show ?thesis .
qed

lemma floor_share:
  "nat \<lfloor>real m * 0.6\<rfloor> \<le> m" "nat \<lfloor>real m * 0.3\<rfloor> + nat \<lfloor>real m * 0.4\<rfloor> \<le> m"
proof -
  have a: "real (nat \<lfloor>real m * 0.6\<rfloor>) \<le> real m * 0.6"
    and b: "real (nat \<lfloor>real m * 0.3\<rfloor>) \<le> real m * 0.3"
    and c: "real (nat \<lfloor>real m * 0.4\<rfloor>) \<le> real m * 0.4"
    by (rule nat_floor_le, simp)+
  from a have "real (nat \<lfloor>real m * 0.6\<rfloor>) \<le> real m" by linarith
  then show "nat \<lfloor>real m * 0.6\<rfloor> \<le> m" by (simp only: of_nat_le_iff)
  from b c have "real (nat \<lfloor>real m * 0.3\<rfloor>) + real (nat \<lfloor>real m * 0.4\<rfloor>) \<le> real m"
    by linarith
  then have "real (nat \<lfloor>real m * 0.3\<rfloor> + nat \<lfloor>real m * 0.4\<rfloor>) \<le> real m"
    by (simp only: of_nat_add)
  then show "nat \<lfloor>real m * 0.3\<rfloor> + nat \<lfloor>real m * 0.4\<rfloor> \<le> m" by (simp only: of_nat_le_iff)
qed

lemma basicOptimization_spent:
  "spent st (final_engine (basicOptimization ev parameters_o cfg st)) (maxIterations cfg)"
proof -
  obtain parameterSets d where
    g: "generateParameterSets (rand ev) parameters_o ''basic'' (draws st) = (parameterSets, d)"
    by (cases "generateParameterSets (rand ev) parameters_o ''basic'' (draws st)")
  let ?maxSets = "min (length parameterSets) (maxIterations cfg)"
  let ?out = "grid_loop ev parameterSets ?maxSets (Fin (real ?maxSets)) 0 (st\<lparr>draws := d\<rparr>)"
  have "spent (st\<lparr>draws := d\<rparr>) (engine_of ?out) (?maxSets - 0)" by (rule grid_loop_spent)
  then have "spent st (engine_of ?out) (maxIterations cfg)"
    by (simp del: spent_draws) (auto elim: spent_mono)
  with g show ?thesis
    by (cases ?out) (auto simp: basicOptimization_def Let_def)
qed

lemma standardOptimization_spent:
  "spent st (final_engine (standardOptimization ev parameters_o cfg st)) (maxIterations cfg)"
proof -
  obtain parameterSets d where
    g: "generateParameterSets (rand ev) parameters_o ''coarse'' (draws st) = (parameterSets, d)"
    by (cases "generateParameterSets (rand ev) parameters_o ''coarse'' (draws st)")
  let ?share = "nat \<lfloor>real (maxIterations cfg) * 0.6\<rfloor>"
  let ?maxSets = "min (length parameterSets) ?share"
  let ?out = "grid_loop ev parameterSets ?maxSets (Fin (real (maxIterations cfg))) 0
                (st\<lparr>draws := d\<rparr>)"
  have "spent (st\<lparr>draws := d\<rparr>) (engine_of ?out) (?maxSets - 0)" by (rule grid_loop_spent)
  then have 1: "spent st (engine_of ?out) ?share"
    by (simp del: spent_draws) (auto elim: spent_mono)
  show ?thesis
  proof (cases ?out)
    case (Inl x)
    with spent_mono [OF 1 floor_share(1)] g show ?thesis
      by (cases x) (simp add: standardOptimization_def Let_def)
  next
    case (Inr st1)
    with 1 have s1: "spent st st1 ?share" by simp
    have s2: "spent st1 (engine_of (fine_phase ev parameters_o cfg st1))
                (maxIterations cfg - length (results st1))"
      by (rule fine_phase_spent)
    have "spent st (engine_of (fine_phase ev parameters_o cfg st1)) (maxIterations cfg)"
      using s1 s2 floor_share(1) [of "maxIterations cfg"]
      by (intro spent_within [OF s1 s2]) (auto simp: spent_def)
    with Inr g show ?thesis
      by (cases "fine_phase ev parameters_o cfg st1")
        (auto simp: standardOptimization_def Let_def)
  qed
qed

lemma deepOptimization_spent:
  "spent st (final_engine (deepOptimization ev parameters_o cfg st)) (maxIterations cfg)"
proof -
  obtain parameterSets d where
    g: "generateParameterSets (rand ev) parameters_o ''coarse'' (draws st) = (parameterSets, d)"
    by (cases "generateParameterSets (rand ev) parameters_o ''coarse'' (draws st)")
  let ?m = "maxIterations cfg"
  let ?share = "nat \<lfloor>real ?m * 0.3\<rfloor>"
  let ?maxSets = "min (length parameterSets) ?share"
  let ?out = "grid_loop ev parameterSets ?maxSets (Fin (real ?m)) 0 (st\<lparr>draws := d\<rparr>)"
  have "spent (st\<lparr>draws := d\<rparr>) (engine_of ?out) (?maxSets - 0)" by (rule grid_loop_spent)
  then have 1: "spent st (engine_of ?out) ?share"
    by (simp del: spent_draws) (auto elim: spent_mono)
  have share: "?share \<le> ?m" using floor_share(2) [of ?m] by simp
  show ?thesis
  proof (cases ?out)
    case (Inl x)
    with spent_mono [OF 1 share] g show ?thesis
      by (cases x) (simp add: deepOptimization_def Let_def)
  next
    case (Inr st1)
    with 1 have s1: "spent st st1 ?share" by simp
    have s2: "spent st1 (engine_of (genetic_phase ev parameters_o cfg st1))
                (nat \<lfloor>real ?m * 0.4\<rfloor>)"
      by (rule genetic_phase_spent)
    from spent_mono [OF spent_trans [OF s1 s2] floor_share(2)]
    have s12: "spent st (engine_of (genetic_phase ev parameters_o cfg st1)) ?m" .
    show ?thesis
    proof (cases "genetic_phase ev parameters_o cfg st1")
      case (Inl x)
      with s12 Inr g show ?thesis
        by (cases x) (simp add: deepOptimization_def Let_def)
    next
      case st2: (Inr st2)
      with s12 have s12': "spent st st2 ?m" by simp
      have s3: "spent st2 (engine_of (local_phase ev parameters_o cfg st2))
                  (?m - length (results st2))"
        by (rule local_phase_spent)
      have "spent st (engine_of (local_phase ev parameters_o cfg st2)) ?m"
        using s12' s3 by (intro spent_within [OF s12' s3]) (auto simp: spent_def)
      with Inr st2 g show ?thesis
        by (cases "local_phase ev parameters_o cfg st2")
          (auto simp: deepOptimization_def Let_def)
    qed
  qed
qed

lemma optimize_spent:
  assumes "\<not> isOptimizing st"
  shows "spent (st\<lparr>results := []\<rparr>) (final_engine (optimize ev parameters_o sets st))
           (case maxIterations_s sets of None \<Rightarrow> 100 | Some m \<Rightarrow> m)"
proof -
  let ?cfg = "\<lparr>maxIterations = (case maxIterations_s sets of None \<Rightarrow> 100 | Some m \<Rightarrow> m),
                optimizationDepth =
                  (case optimizationDepth_s sets of None \<Rightarrow> ''standard'' | Some x \<Rightarrow> x)\<rparr>"
  let ?st1 = "st\<lparr>isOptimizing := True, results := [], bestResult := None,
                 totalIterations := calculateTotalIterations parameters_o ?cfg\<rparr>"
  let ?out = "if optimizationDepth ?cfg = ''basic'' then basicOptimization ev parameters_o ?cfg ?st1
              else if optimizationDepth ?cfg = ''deep'' then deepOptimization ev parameters_o ?cfg ?st1
              else standardOptimization ev parameters_o ?cfg ?st1"
  have "spent ?st1 (final_engine ?out) (maxIterations ?cfg)"
    using basicOptimization_spent [of ?st1 ev parameters_o ?cfg]
      standardOptimization_spent [of ?st1 ev parameters_o ?cfg]
      deepOptimization_spent [of ?st1 ev parameters_o ?cfg]
    by (simp only: split: if_split) blast
  then have "spent (st\<lparr>results := []\<rparr>) (final_engine
      (case ?out of Inl (e, st2) \<Rightarrow> Inl (e, st2\<lparr>isOptimizing := False\<rparr>)
       | Inr (c, st2) \<Rightarrow> Inr (c, st2\<lparr>isOptimizing := False\<rparr>))) (maxIterations ?cfg)"
    by (simp add: final_engine_cases spent_def)
  with assms show ?thesis
    by (simp only: optimize_def Let_def if_False config.simps)
qed






lemma throws_cong:
  "progressCallback st' = progressCallback st \<Longrightarrow> throws st' = throws st"
  by (simp add: throws_def)



lemma same_log_refl [simp]: "same_log st st"
  by (simp add: same_log_def)

lemma same_log_draws [simp]: "same_log st (st'\<lparr>draws := d\<rparr>) = same_log st st'"
  by (simp add: same_log_def)


lemma same_log_getTopResults [simp]: "same_log st (snd (getTopResults n st))"
  by (simp add: same_log_def)












































section \<open>The claims about the result tracker\<close>

text \<open>
  C3 (monotonic best). Every result is recorded with \<open>iteration\<close> equal to the number
  of results recorded before it, so the values of \<open>iteration\<close> in the log of a finished
  run are exactly \<open>0, ..., n - 1\<close> and give the completion order whatever the order of
  the log. After a run started on an idle engine, whether it returned or threw,
  \<open>bestResult\<close> is absent only when nothing was recorded; otherwise it is a recorded result
  whose score no recorded result exceeds, and the earliest one (smallest \<open>iteration\<close>)
  among those of that score. The same holds after each single recording (push, then
  \<open>updateBestResult\<close>) from a state in which it held. \<open>updateBestResult\<close> keeps the
  holder whenever the new score does not strictly exceed the holder's, so a tie never
  displaces it, and the score of \<open>bestResult\<close> never decreases.
\<close>
theorem best_result_is_earliest_maximum:
  assumes "\<not> isOptimizing st0"
  shows
    "(let st = final_engine (optimize ev parameters_o sets st0)
      in mset (map iteration (results st)) = mset [0..<length (results st)] \<and>
         (case bestResult st of
            None \<Rightarrow> results st = []
          | Some b \<Rightarrow>
              b \<in> set (results st) \<and>
              (\<forall>r\<in>set (results st).
                 score r < score b \<or> (score r = score b \<and> iteration b \<le> iteration r)))) \<and>
     (tracker_inv st \<and> iteration r = length (results st) \<longrightarrow>
        tracker_inv (updateBestResult r (push_result r st))) \<and>
     bestResult (updateBestResult r st) =
       (if \<exists>b. bestResult st = Some b \<and> score r \<le> score b then bestResult st else Some r) \<and>
     (\<forall>b. bestResult st = Some b \<longrightarrow>
        (\<exists>b'. bestResult (updateBestResult r st) = Some b' \<and> score b \<le> score b'))"
proof -
  have run: "tracker_inv (final_engine (optimize ev parameters_o sets st0))"
    by (rule tracker_inv_optimize [OF assms])
  have step: "tracker_inv st \<and> iteration r = length (results st) \<longrightarrow>
        tracker_inv (updateBestResult r (push_result r st))"
    using tracker_inv_record by blast
  have ptr: "bestResult (updateBestResult r st) =
       (if \<exists>b. bestResult st = Some b \<and> score r \<le> score b then bestResult st else Some r)"
    by (cases "bestResult st") (auto simp: updateBestResult_def)
  have mono: "\<forall>b. bestResult st = Some b \<longrightarrow>
        (\<exists>b'. bestResult (updateBestResult r st) = Some b' \<and> score b \<le> score b')"
    by (auto simp: updateBestResult_def)
  from run have "let st = final_engine (optimize ev parameters_o sets st0)
      in mset (map iteration (results st)) = mset [0..<length (results st)] \<and>
         (case bestResult st of
            None \<Rightarrow> results st = []
          | Some b \<Rightarrow>
              b \<in> set (results st) \<and>
              (\<forall>r\<in>set (results st).
                 score r < score b \<or> (score r = score b \<and> iteration b \<le> iteration r)))"
    unfolding tracker_inv_def Let_def .
  with step ptr mono show ?thesis by blast
qed

theorem best_result_is_earliest_maximum_witness:
  "\<not> isOptimizing idle_engine \<and>
   tracker_inv (final_engine (optimize example_env [length_param] basic_settings idle_engine)) \<and>
   bestResult (final_engine (optimize example_env [length_param] basic_settings idle_engine)) =
     Some \<lparr>iteration = 1, parameters = [(''length'', Num 50)], score = 20\<rparr> \<and>
   bestResult (updateBestResult \<lparr>iteration = 3, parameters = [], score = 20\<rparr>
      (final_engine (optimize example_env [length_param] basic_settings idle_engine))) =
     Some \<lparr>iteration = 1, parameters = [(''length'', Num 50)], score = 20\<rparr>"
proof -
  have idle: "\<not> isOptimizing idle_engine" by (simp add: idle_engine_def)
  from best_result_is_earliest_maximum [OF idle, of example_env "[length_param]" basic_settings
      "final_engine (optimize example_env [length_param] basic_settings idle_engine)"
      "\<lparr>iteration = 3, parameters = [], score = 20\<rparr>"]
  show ?thesis
    using idle unfolding tracker_inv_def Let_def
    by (simp add: example_run)
qed

text \<open>
  C1 (improvement over the first evaluation). The summary of a completed run does not
  report the improvement over the first evaluation: \<open>compileResults\<close> calls
  \<open>getTopResults\<close> before \<open>calculateImprovement\<close>, the log is by then sorted by
  descending score, and \<open>results[0]\<close> is a result of the best score. For every completed
  run the field is therefore 0, or NaN when the best score is 0. In the example run the
  first evaluation scores 10 and the best 20, an improvement of 100 percent, and the
  summary says 0.
\<close>
theorem improvement_is_zero_or_NaN:
  assumes "optimize ev parameters_o sets st0 = Inr (c, st)"
  shows "improvement (summary_c c) = Fin 0 \<or> improvement (summary_c c) = NaN"
proof -
  from optimize_compiled [OF assms] obtain st1 st2 where
    "tracker_inv st1" "compileResults st1 = Inr (c, st2)" by blast
  then show ?thesis by (rule compileResults_improvement)
qed

theorem improvement_at_failing_input:
  "\<exists>c st. optimize example_env [length_param] basic_settings idle_engine = Inr (c, st) \<and>
     improvement (summary_c c) = Fin 0 \<and>
     bestScore (summary_c c) = 20 \<and>
     evaluator example_env 0 [(''length'', Num 5)] = 10 \<and>
     js_mul (js_div (20 - 10) 10) 100 = Fin 100"
proof -
  obtain c st where run: "optimize example_env [length_param] basic_settings idle_engine = Inr (c, st)"
    and best: "bestScore (summary_c c) = 20"
    using example_run by simp
  from improvement_is_zero_or_NaN [OF run] run have "improvement (summary_c c) = Fin 0"
    by (auto simp: example_run)
  with run best show ?thesis
    by (simp add: example_env_def js_div_def) 
qed

text \<open>
  C2 (append-only log in completion order). \<open>getTopResults\<close> reorders the log: asked
  for the top 5 of a log whose results scored 10 and then 20, it leaves the log with the
  second result first; and the log of the example run ends in the order 1, 2, 0 of
  completion.
\<close>
theorem top_results_reorder_the_log:
  "results (snd (getTopResults 5
      (idle_engine\<lparr>results :=
         [\<lparr>iteration = 0, parameters = [(''length'', Num 5)], score = 10\<rparr>,
          \<lparr>iteration = 1, parameters = [(''length'', Num 50)], score = 20\<rparr>]\<rparr>))) =
     [\<lparr>iteration = 1, parameters = [(''length'', Num 50)], score = 20\<rparr>,
      \<lparr>iteration = 0, parameters = [(''length'', Num 5)], score = 10\<rparr>] \<and>
   map iteration (results (final_engine
      (optimize example_env [length_param] basic_settings idle_engine))) = [1, 2, 0]"
  by (simp add: example_run)

text \<open>
  C10 (summary of a run without evaluations). A run that returns a summary with
  \<open>totalTests = 0\<close> reports \<open>success\<close>, an \<open>averageScore\<close> of NaN (0 divided by 0), a
  \<open>bestScore\<close> of 0 and the empty parameter set.
\<close>
theorem empty_run_average_is_NaN:
  assumes "optimize ev parameters_o sets st0 = Inr (c, st)" and "totalTests c = 0"
  shows "success c \<and> averageScore (summary_c c) = NaN \<and> bestScore (summary_c c) = 0 \<and>
         parameters_s (summary_c c) = []"
proof -
  from optimize_compiled [OF assms(1)] obtain st1 st2 where
    c: "tracker_inv st1" "compileResults st1 = Inr (c, st2)" by blast
  from compileResults_empty [OF c assms(2)] compileResults_success [OF c(2)] show ?thesis
    by simp
qed

lemma empty_run:
  "optimize example_env [source_param] basic_settings idle_engine =
     Inr (\<lparr>success = True, totalTests = 0, bestResult_c = None, topResults = [],
            summary_c = \<lparr>bestScore = 0, averageScore = NaN, improvement = Fin 0,
                          parameters_s = []\<rparr>\<rparr>,
          \<lparr>isOptimizing = False, results = [], bestResult = None, progressCallback = None,
            totalIterations = Fin 1, draws = 0, clock = 0\<rparr>)"
  by (simp add: run_defs)

theorem empty_run_average_is_NaN_witness:
  "\<exists>c st. optimize example_env [source_param] basic_settings idle_engine = Inr (c, st) \<and>
     totalTests c = 0 \<and> success c \<and> averageScore (summary_c c) = NaN \<and>
     bestScore (summary_c c) = 0 \<and> parameters_s (summary_c c) = []"
proof -
  obtain c st where run: "optimize example_env [source_param] basic_settings idle_engine = Inr (c, st)"
    and z: "totalTests c = 0"
    using empty_run by simp
  from empty_run_average_is_NaN [OF run z] run z show ?thesis by blast
qed

section \<open>The claims about the runs\<close>

text \<open>
  C4 (budget respected). A run started on an idle engine records at most
  \<open>config.maxIterations\<close> evaluations, in each of the three profiles and whether it
  returns or throws; the \<open>totalTests\<close> of a returned summary is the length of the log and
  within the budget. The run is suspended at most twice for every evaluation, so at most
  \<open>2 * maxIterations\<close> times in all. Every loop of the model is a function whose
  termination is proved where it is defined, so \<open>optimize\<close> returns or throws for every
  input. (\<open>maxIterations\<close> is a natural number and the oracles answer.)
\<close>
theorem evaluations_within_budget:
  assumes "\<not> isOptimizing st0"
  shows
    "length (results (final_engine (optimize ev parameters_o sets st0))) \<le>
       (case maxIterations_s sets of None \<Rightarrow> 100 | Some m \<Rightarrow> m) \<and>
     clock (final_engine (optimize ev parameters_o sets st0)) \<le>
       clock st0 + 2 * (case maxIterations_s sets of None \<Rightarrow> 100 | Some m \<Rightarrow> m) \<and>
     (\<forall>c st. optimize ev parameters_o sets st0 = Inr (c, st) \<longrightarrow>
        totalTests c = length (results st) \<and>
        totalTests c \<le> (case maxIterations_s sets of None \<Rightarrow> 100 | Some m \<Rightarrow> m))"
proof -
  let ?m = "case maxIterations_s sets of None \<Rightarrow> 100 | Some m \<Rightarrow> m"
  let ?st = "final_engine (optimize ev parameters_o sets st0)"
  from optimize_spent [OF assms, of ev parameters_o sets]
  have len: "length (results ?st) \<le> ?m" and clk: "clock ?st \<le> clock st0 + 2 * ?m"
    by (simp_all add: spent_def)
  have "totalTests c = length (results st) \<and> totalTests c \<le> ?m"
    if run: "optimize ev parameters_o sets st0 = Inr (c, st)" for c st
  proof -
    from optimize_compiled [OF run] obtain st1 st2 where
      c: "compileResults st1 = Inr (c, st2)" and st: "st = st2\<lparr>isOptimizing := False\<rparr>"
      by blast
    from c have "st2 = final_engine (compileResults st1)" by simp
    then have "length (results st2) = length (results st1)"
      by (simp add: final_engine_compileResults)
    with compileResults_success [OF c] st have "totalTests c = length (results st)" by simp
    moreover from len run have "length (results st) \<le> ?m" by simp
    ultimately show ?thesis by simp
  qed
  with len clk show ?thesis by blast
qed

lemmas deep_defs = deepOptimization_def genetic_phase_def local_phase_def geneticOptimization_def
  initializePopulation_def fill_population.simps random_individual.simps generateRandomValue_def
  generation_loop.simps localSearchOptimization_def search_loop.simps generateNeighbors_def
  perturbed_def differs_def lookup_def neighbor_loop.simps deep_settings_def

lemma deep_run:
  "\<exists>c st. optimize example_env [length_param] deep_settings idle_engine = Inr (c, st) \<and>
     totalTests c = 9 \<and> length (results st) = 9 \<and> clock st = 18"
  by (simp add: run_defs deep_defs)

theorem evaluations_within_budget_witness:
  "\<not> isOptimizing idle_engine \<and>
   (\<exists>c st. optimize example_env [length_param] deep_settings idle_engine = Inr (c, st) \<and>
      totalTests c = 9 \<and> totalTests c = length (results st) \<and> totalTests c \<le> 20) \<and>
   length (results (final_engine (optimize example_env [length_param] deep_settings idle_engine)))
     \<le> 20 \<and>
   clock (final_engine (optimize example_env [length_param] deep_settings idle_engine)) \<le> 40"
proof -
  have idle: "\<not> isOptimizing idle_engine" by (simp add: idle_engine_def)
  from deep_run obtain c st where
    run: "optimize example_env [length_param] deep_settings idle_engine = Inr (c, st)"
    and n: "totalTests c = 9" by blast
  from evaluations_within_budget [OF idle, of example_env "[length_param]" deep_settings]
  have b: "length (results (final_engine
              (optimize example_env [length_param] deep_settings idle_engine))) \<le> 20"
    "clock (final_engine (optimize example_env [length_param] deep_settings idle_engine)) \<le> 40"
    "totalTests c = length (results st) \<and> totalTests c \<le> 20"
    using run by (simp_all add: deep_settings_def idle_engine_def)
  with idle run n show ?thesis by blast
qed







section \<open>The claims about the candidate generator\<close>

subsection \<open>The number of candidates\<close>

lemma shuffle_loop_length [simp]:
  "length (fst (shuffle_loop rnd i xs d)) = length xs"
  by (induction i arbitrary: xs d) (simp_all add: Let_def)

lemma shuffleArray_length [simp]: "length (fst (shuffleArray rnd xs d)) = length xs"
  by (simp add: shuffleArray_def)

lemma cap_reached:
  fixes N :: nat
  assumes "len < N" "l1 = len + min (N - len) P" "N \<le> l1"
  shows "l1 = len + min (N - len) (P + Q)"
proof -
  have "N - len \<le> P"
  proof (rule ccontr)
    assume "\<not> N - len \<le> P"
    then have "min (N - len) P = P" "P < N - len" by simp_all
    with assms show False by simp
  qed
  then have "min (N - len) P = N - len" "min (N - len) (P + Q) = N - len" by simp_all
  with assms(2) show ?thesis by simp
qed

lemma cap_not_reached:
  fixes N :: nat
  assumes "l1 = len + min (N - len) P" "\<not> N \<le> l1" "l2 = l1 + min (N - l1) Q"
  shows "l2 = len + min (N - len) (P + Q)"
proof -
  have P: "P < N - len"
  proof (rule ccontr)
    assume "\<not> P < N - len"
    then have "min (N - len) P = N - len" by simp
    with assms(1,2) show False by simp
  qed
  then have l1: "l1 = len + P" using assms(1) by simp
  then have "N - l1 = N - len - P" by simp
  then have "min (N - l1) Q = min (N - len - P) Q" by simp
  moreover have "P + min (N - len - P) Q = min (N - len) (P + Q)"
    using P by (cases "N - len - P \<le> Q") simp_all
  ultimately show ?thesis using assms(3) l1 by simp
qed

lemma generateCombinations_count:
  "length sets < 10000 \<Longrightarrow>
     length (snd (generateCombinations k params current sets)) =
       length sets + min (10000 - length sets) (combinations k params)"
  "length sets < 10000 \<Longrightarrow>
     length (snd (generateCombinations_for k param params vs current sets)) =
       length sets + min (10000 - length sets) (length vs * combinations k params)"
proof (induction k params current sets and k param params vs current sets
    rule: generateCombinations_generateCombinations_for.induct)
  case (1 k current sets)
  then show ?case by (simp add: combinations_def)
next
  case (2 k param params current sets)
  then show ?case by (simp add: combinations_def)
next
  case (3 k param params current sets)
  then show ?case by simp
next
  case (4 k param params v vs current sets)
  obtain current1 sets1 where
    g: "generateCombinations k params (AList.update (name param) v current) sets = (current1, sets1)"
    by (cases "generateCombinations k params (AList.update (name param) v current) sets")
  from "4.IH"(1) [OF "4.prems"] g
  have l1: "length sets1 = length sets + min (10000 - length sets) (combinations k params)"
    by simp
  have split: "length (v # vs) * combinations k params =
      combinations k params + length vs * combinations k params"
    by simp
  show ?case
  proof (cases "10000 \<le> length sets1")
    case True
    have unfold: "generateCombinations_for k param params (v # vs) current sets = (current1, sets1)"
      using g True by simp
    from cap_reached [OF "4.prems" l1 True]
    have "length sets1 = length sets +
        min (10000 - length sets) (length (v # vs) * combinations k params)"
      by (simp only: split)
    then show ?thesis by (simp only: unfold snd_conv)
  next
    case False
    then have "length sets1 < 10000" by simp
    have unfold: "generateCombinations_for k param params (v # vs) current sets =
        generateCombinations_for k param params vs current1 sets1"
      using g False by simp
    from "4.IH"(2) [OF g [symmetric] False \<open>length sets1 < 10000\<close>]
    have "length (snd (generateCombinations_for k param params vs current1 sets1)) =
            length sets1 + min (10000 - length sets1) (length vs * combinations k params)" .
    from cap_not_reached [OF l1 False this]
    have "length (snd (generateCombinations_for k param params vs current1 sets1)) =
        length sets + min (10000 - length sets) (length (v # vs) * combinations k params)"
      by (simp only: split)
    then show ?thesis by (simp only: unfold)
  qed
qed

lemma generateCombinations_total:
  "length (snd (generateCombinations k params [] [])) = min 10000 (combinations k params)"
proof -
  have "length ([] :: pset list) < 10000" by simp
  from generateCombinations_count(1) [OF this, of k params "[]"]
  show ?thesis by (simp only: list.size add_0 diff_zero)
qed

text \<open>
  C6. For every list of parameter definitions, every density and every random stream, the
  candidate generator returns at most 10000 parameter sets. More precisely it returns
  exactly \<open>min 10000 (combinations k params)\<close> of them: the enumeration of the Cartesian
  product stops when the array of candidates reaches 10000 elements, and what it has
  pushed until then is returned (shuffled); a product of fewer than 10000 combinations is
  enumerated completely.
\<close>

theorem at_most_10000_candidates:
  "length (fst (generateParameterSets rnd parameters_d density d)) =
     min 10000 (combinations (stepsPerParam density) parameters_d) \<and>
   length (fst (generateParameterSets rnd parameters_d density d)) \<le> 10000"
proof (rule conjI)
  show eq: "length (fst (generateParameterSets rnd parameters_d density d)) =
     min 10000 (combinations (stepsPerParam density) parameters_d)"
    by (simp only: generateParameterSets_def shuffleArray_length generateCombinations_total)
  show "length (fst (generateParameterSets rnd parameters_d density d)) \<le> 10000"
    by (simp only: eq min.cobounded1)
qed

section \<open>The claims about the genetic phase\<close>














section \<open>The claims about the candidates\<close>




























end
